theory Spec2Isabelle
  imports Complex_Main "HOL-Library.Finite_Map"
begin

section \<open>Exceptions and the blanket exception decorator\<close>

text \<open>
  The exception classes that the storage code can meet, named by their most specific
  Python class. \<open>JSONDecodeError\<close> is a subclass of \<open>ValueError\<close>;
  \<open>IsADirectoryError\<close> is an \<open>OSError\<close> that is none of the classes the decorator
  names; \<open>OperationalError\<close> is \<open>sqlite3.OperationalError\<close>; \<open>TypeError\<close> is
  also what the interpreter raises when an \<open>except\<close> clause names something that is not
  an exception class.
\<close>

datatype exn =
    ConnectionError | ValueError | JSONDecodeError | FileNotFoundError | PermissionError
  | IsADirectoryError | OperationalError | TypeError
  | BotoClientError | MQTTException | AzureClientError

text \<open>
  \<open>common/exceptions.py\<close> imports three optional classes and binds the name to
  \<open>None\<close> when the import fails. The record says which imports succeeded.
\<close>

record import_env =
  azure_imported :: bool
  mqtt_imported :: bool
  boto_imported :: bool

fun is_ConnectionError :: "exn \<Rightarrow> bool" where
  "is_ConnectionError e = (e = ConnectionError)"

fun is_ValueError :: "exn \<Rightarrow> bool" where
  "is_ValueError e = (e = ValueError \<or> e = JSONDecodeError)"

fun is_FileNotFoundError :: "exn \<Rightarrow> bool" where
  "is_FileNotFoundError e = (e = FileNotFoundError)"

fun is_PermissionError :: "exn \<Rightarrow> bool" where
  "is_PermissionError e = (e = PermissionError)"

text \<open>
  \<open>handle_exceptions(default_return_value)\<close> applied to the outcome of the decorated
  body. The clauses are tried in the order of the source. A clause \<open>except X\<close> whose
  \<open>X\<close> is \<open>None\<close> raises \<open>TypeError\<close> as soon as an exception reaches it. The flag
  \<open>log_exception\<close> only selects the logging call and is left out.
\<close>

fun handle_exceptions :: "import_env \<Rightarrow> 'a \<Rightarrow> exn + 'a \<Rightarrow> exn + 'a" where
  "handle_exceptions im d (Inr v) = Inr v"
| "handle_exceptions im d (Inl e) =
     (if is_ConnectionError e then Inr d
      else if is_ValueError e then Inr d
      else if is_FileNotFoundError e then Inr d
      else if is_PermissionError e then Inr d
      else if \<not> boto_imported im then Inl TypeError
      else if e = BotoClientError then Inr d
      else if \<not> mqtt_imported im then Inl TypeError
      else if e = MQTTException then Inr d
      else if azure_imported im \<and> e = AzureClientError then Inr d
      else Inr d)"

text \<open>The decorator around a body that also returns the state it left behind.\<close>

fun guarded :: "import_env \<Rightarrow> 'a \<Rightarrow> (exn + 'a) \<times> 's \<Rightarrow> (exn + 'a) \<times> 's" where
  "guarded im d (r, s) = (handle_exceptions im d r, s)"

section \<open>The file-based backend (JSONOfflineStorage)\<close>

text \<open>
  What is at the configured path. The text of a file is abstracted to what
  \<open>json.load\<close> makes of it: an array whose elements each either decode to a message or
  are malformed, or a well-formed document that is not an array. A document with one
  malformed element does not parse as a whole. Messages are an arbitrary type; the backend
  only compares them with \<open>==\<close>, which HOL equality stands for.
\<close>

datatype 'm element = Good 'm | Bad

datatype 'm document = Doc_array "'m element list" | Doc_other

datatype 'm path_state = Absent | Directory | File "'m document"

fun is_Good :: "'m element \<Rightarrow> bool" where
  "is_Good (Good m) = True"
| "is_Good Bad = False"

fun decoded :: "'m element list \<Rightarrow> 'm list" where
  "decoded [] = []"
| "decoded (Good m # es) = m # decoded es"
| "decoded (Bad # es) = decoded es"

text \<open>\<open>json.load\<close>: the parsed list, \<open>None\<close> for a document that is not a list, or a
  \<open>JSONDecodeError\<close>.\<close>

fun json_load :: "'m document \<Rightarrow> exn + 'm list option" where
  "json_load (Doc_array es) =
     (if list_all is_Good es then Inr (Some (decoded es)) else Inl JSONDecodeError)"
| "json_load Doc_other = Inr None"

fun path_exists :: "'m path_state \<Rightarrow> bool" where
  "path_exists Absent = False"
| "path_exists Directory = True"
| "path_exists (File d) = True"

text \<open>\<open>_load_entire_list\<close>, body and decorated method (default \<open>[]\<close>).\<close>

fun load_entire_list_body :: "'m path_state \<Rightarrow> exn + 'm list" where
  "load_entire_list_body Absent = Inr []"
| "load_entire_list_body Directory = Inl IsADirectoryError"
| "load_entire_list_body (File d) =
     (case json_load d of
        Inl e \<Rightarrow> Inl e
      | Inr (Some data) \<Rightarrow> Inr data
      | Inr None \<Rightarrow> Inr [])"

definition load_entire_list :: "import_env \<Rightarrow> 'm path_state \<Rightarrow> exn + 'm list" where
  "load_entire_list im fs = handle_exceptions im [] (load_entire_list_body fs)"

text \<open>\<open>_save_entire_list\<close>, body and decorated method (default \<open>None\<close>). An empty list
  unlinks an existing path; otherwise the file is overwritten with the encoded list.\<close>

fun save_entire_list_body :: "'m path_state \<Rightarrow> 'm list \<Rightarrow> (exn + unit) \<times> 'm path_state" where
  "save_entire_list_body fs all_data =
     (if all_data = [] then
        (if path_exists fs then
           (case fs of Directory \<Rightarrow> (Inl IsADirectoryError, fs) | _ \<Rightarrow> (Inr (), Absent))
         else (Inr (), fs))
      else
        (case fs of
           Directory \<Rightarrow> (Inl IsADirectoryError, fs)
         | _ \<Rightarrow> (Inr (), File (Doc_array (map Good all_data)))))"

definition save_entire_list ::
  "import_env \<Rightarrow> 'm path_state \<Rightarrow> 'm list \<Rightarrow> (exn + unit) \<times> 'm path_state" where
  "save_entire_list im fs all_data = guarded im () (save_entire_list_body fs all_data)"

text \<open>\<open>add_messages\<close> (default \<open>None\<close>): nothing for an empty input, otherwise
  load, extend, save.\<close>

definition json_add_messages ::
  "import_env \<Rightarrow> 'm path_state \<Rightarrow> 'm list \<Rightarrow> (exn + unit) \<times> 'm path_state" where
  "json_add_messages im fs messages = guarded im ()
     (if messages = [] then (Inr (), fs)
      else
        (case load_entire_list im fs of
           Inl e \<Rightarrow> (Inl e, fs)
         | Inr current \<Rightarrow> save_entire_list im fs (current @ messages)))"

text \<open>\<open>load_messages\<close> (default \<open>[]\<close>): the whole list for \<open>limit <= 0\<close>, otherwise the
  slice \<open>current[:limit]\<close>. It only reads; the state is handed back as it was.\<close>

definition json_load_messages ::
  "import_env \<Rightarrow> 'm path_state \<Rightarrow> int \<Rightarrow> (exn + 'm list) \<times> 'm path_state" where
  "json_load_messages im fs limit = guarded im []
     (case load_entire_list im fs of
        Inl e \<Rightarrow> (Inl e, fs)
      | Inr current \<Rightarrow>
          (if limit \<le> 0 then (Inr current, fs) else (Inr (take (nat limit) current), fs)))"

text \<open>The loop of \<open>remove_messages\<close>: each message found in \<open>current\<close> has its first
  occurrence removed and is counted.\<close>

fun remove_each :: "'m list \<Rightarrow> 'm list \<Rightarrow> nat \<Rightarrow> 'm list \<times> nat" where
  "remove_each [] current removed_count = (current, removed_count)"
| "remove_each (msg # msgs) current removed_count =
     (if msg \<in> set current
      then remove_each msgs (remove1 msg current) (Suc removed_count)
      else remove_each msgs current removed_count)"

text \<open>\<open>remove_messages\<close> (default \<open>0\<close>).\<close>

definition json_remove_messages ::
  "import_env \<Rightarrow> 'm path_state \<Rightarrow> 'm list \<Rightarrow> (exn + nat) \<times> 'm path_state" where
  "json_remove_messages im fs messages = guarded im 0
     (if messages = [] then (Inr 0, fs)
      else
        (case load_entire_list im fs of
           Inl e \<Rightarrow> (Inl e, fs)
         | Inr current \<Rightarrow>
             (case remove_each messages current 0 of
                (current', removed_count) \<Rightarrow>
                  (case save_entire_list im fs current' of
                     (Inl e, fs') \<Rightarrow> (Inl e, fs')
                   | (Inr u, fs') \<Rightarrow> (Inr removed_count, fs')))))"

text \<open>A run of \<open>add_messages\<close> calls, one per list, stopping at a propagated exception.\<close>

fun json_add_all ::
  "import_env \<Rightarrow> 'm path_state \<Rightarrow> 'm list list \<Rightarrow> (exn + unit) \<times> 'm path_state" where
  "json_add_all im fs [] = (Inr (), fs)"
| "json_add_all im fs (ms # mss) =
     (case json_add_messages im fs ms of
        (Inl e, fs') \<Rightarrow> (Inl e, fs')
      | (Inr u, fs') \<Rightarrow> json_add_all im fs' mss)"

text \<open>The records a path holds, as \<open>_load_entire_list\<close> sees them when nothing fails.\<close>

fun stored :: "'m path_state \<Rightarrow> 'm list" where
  "stored (File (Doc_array es)) = (if list_all is_Good es then decoded es else [])"
| "stored _ = []"


section \<open>The embedded-SQL backend (SQLiteOfflineStorage)\<close>

text \<open>
  A message is a Python dict with string keys. JSON values are the values \<open>json\<close>
  round-trips exactly; floating-point numbers and values that \<open>json.dumps\<close> cannot
  encode are outside the type.
\<close>

datatype json =
    JNull | JBool bool | JInt int | JStr string | JArray "json list"
  | JObject "(string, json) fmap"

type_synonym message = "(string, json) fmap"

text \<open>
  The \<open>data TEXT\<close> column of a row, abstracted to what \<open>json.loads\<close> makes of it:
  the text of a JSON value, or text that does not parse.
\<close>

datatype payload = Encoded json | Garbled

fun json_dumps :: "message \<Rightarrow> payload" where
  "json_dumps msg = Encoded (JObject msg)"

fun json_loads :: "payload \<Rightarrow> exn + json" where
  "json_loads (Encoded v) = Inr v"
| "json_loads Garbled = Inl JSONDecodeError"

text \<open>
  The table \<open>offline_messages (id INTEGER PRIMARY KEY AUTOINCREMENT, data TEXT)\<close>: its
  rows, and the largest id handed out so far (the \<open>sqlite_sequence\<close> entry). The database
  file is missing, or exists with or without the table.
\<close>

record table =
  rows :: "(int \<times> payload) list"
  last_id :: int

datatype db_file = No_file | Db "table option"

definition empty_table :: table where
  "empty_table = \<lparr>rows = [], last_id = 0\<rparr>"

text \<open>\<open>sqlite3.connect(path)\<close> creates a missing database file, with no table in it.\<close>

fun connect_db :: "db_file \<Rightarrow> table option" where
  "connect_db No_file = None"
| "connect_db (Db t) = t"

text \<open>\<open>_init_db\<close>, run by the constructor: \<open>CREATE TABLE IF NOT EXISTS\<close>.\<close>

definition init_db :: "import_env \<Rightarrow> db_file \<Rightarrow> (exn + unit) \<times> db_file" where
  "init_db im db = guarded im ()
     (case connect_db db of
        None \<Rightarrow> (Inr (), Db (Some empty_table))
      | Some t \<Rightarrow> (Inr (), Db (Some t)))"

text \<open>One \<open>INSERT INTO offline_messages (data) VALUES (?)\<close>: the new row takes the
  next id.\<close>

definition insert_row :: "table \<Rightarrow> payload \<Rightarrow> table" where
  "insert_row t raw = \<lparr>rows = rows t @ [(last_id t + 1, raw)], last_id = last_id t + 1\<rparr>"

fun insert_all :: "table \<Rightarrow> message list \<Rightarrow> table" where
  "insert_all t [] = t"
| "insert_all t (msg # msgs) = insert_all (insert_row t (json_dumps msg)) msgs"

text \<open>
  \<open>add_messages\<close> (default \<open>None\<close>). The \<open>INSERT\<close> stands inside the loop's
  \<open>try\<close>, so on a database without the table every insert fails, is logged, and the
  call still returns normally.
\<close>

definition sqlite_add_messages ::
  "import_env \<Rightarrow> db_file \<Rightarrow> message list \<Rightarrow> (exn + unit) \<times> db_file" where
  "sqlite_add_messages im db messages = guarded im ()
     (if messages = [] then (Inr (), db)
      else
        (case connect_db db of
           None \<Rightarrow> (Inr (), Db None)
         | Some t \<Rightarrow> (Inr (), Db (Some (insert_all t messages)))))"

text \<open>\<open>SELECT id, data FROM offline_messages ORDER BY id ASC\<close>, with or without
  \<open>LIMIT\<close>.\<close>

definition select_rows :: "table \<Rightarrow> int \<Rightarrow> (int \<times> payload) list" where
  "select_rows t limit =
     (if 0 < limit then take (nat limit) (sort_key fst (rows t)) else sort_key fst (rows t))"

text \<open>
  The loop over the fetched rows: a row whose text does not parse is skipped, and so is a
  row whose value is not a dict (the item assignment \<open>parsed["_db_id"] = row_id\<close> raises
  inside the same \<open>try\<close>).
\<close>

fun parse_rows :: "(int \<times> payload) list \<Rightarrow> message list" where
  "parse_rows [] = []"
| "parse_rows ((row_id, raw_json) # rs) =
     (case json_loads raw_json of
        Inl e \<Rightarrow> parse_rows rs
      | Inr (JObject parsed) \<Rightarrow> fmupd ''_db_id'' (JInt row_id) parsed # parse_rows rs
      | Inr _ \<Rightarrow> parse_rows rs)"

text \<open>\<open>load_messages\<close> (default \<open>[]\<close>).\<close>

definition sqlite_load_messages ::
  "import_env \<Rightarrow> db_file \<Rightarrow> int \<Rightarrow> (exn + message list) \<times> db_file" where
  "sqlite_load_messages im db limit = guarded im []
     (case connect_db db of
        None \<Rightarrow> (Inl OperationalError, Db None)
      | Some t \<Rightarrow> (Inr (parse_rows (select_rows t limit)), Db (Some t)))"

text \<open>The ids collected by \<open>remove_messages\<close>: \<open>msg.get("_db_id")\<close> when it is an
  \<open>int\<close> (a \<open>bool\<close> is an \<open>int\<close> in Python).\<close>

fun row_ids_of :: "message list \<Rightarrow> int list" where
  "row_ids_of [] = []"
| "row_ids_of (msg # msgs) =
     (case fmlookup msg ''_db_id'' of
        Some (JInt i) \<Rightarrow> i # row_ids_of msgs
      | Some (JBool b) \<Rightarrow> (if b then 1 else 0) # row_ids_of msgs
      | _ \<Rightarrow> row_ids_of msgs)"

text \<open>\<open>DELETE FROM offline_messages WHERE id IN (...)\<close> and its \<open>rowcount\<close>.\<close>

definition delete_rows :: "table \<Rightarrow> int list \<Rightarrow> table \<times> nat" where
  "delete_rows t row_ids =
     (t\<lparr>rows := filter (\<lambda>r. fst r \<notin> set row_ids) (rows t)\<rparr>,
      length (filter (\<lambda>r. fst r \<in> set row_ids) (rows t)))"

text \<open>\<open>remove_messages\<close> (default \<open>0\<close>).\<close>

definition sqlite_remove_messages ::
  "import_env \<Rightarrow> db_file \<Rightarrow> message list \<Rightarrow> (exn + nat) \<times> db_file" where
  "sqlite_remove_messages im db messages = guarded im 0
     (if messages = [] then (Inr 0, db)
      else if row_ids_of messages = [] then (Inr 0, db)
      else
        (case connect_db db of
           None \<Rightarrow> (Inl OperationalError, Db None)
         | Some t \<Rightarrow>
             (case delete_rows t (row_ids_of messages) of
                (t', removed) \<Rightarrow> (Inr removed, Db (Some t')))))"

text \<open>The number of rows of the table (\<open>SELECT COUNT(*)\<close>), when the table exists.\<close>

fun row_count :: "db_file \<Rightarrow> nat option" where
  "row_count (Db (Some t)) = Some (length (rows t))"
| "row_count _ = None"

text \<open>A table as SQLite keeps it: ids ascending and distinct, none above the last one
  handed out.\<close>

definition table_ok :: "table \<Rightarrow> bool" where
  "table_ok t = (sorted_wrt (<) (map fst (rows t)) \<and> list_all (\<lambda>r. fst r \<le> last_id t) (rows t))"


section \<open>The storage interface and the offline storage service\<close>

datatype storage = JSON_storage "message path_state" | SQLite_storage db_file

fun add_messages :: "import_env \<Rightarrow> storage \<Rightarrow> message list \<Rightarrow> (exn + unit) \<times> storage" where
  "add_messages im (JSON_storage fs) msgs =
     (case json_add_messages im fs msgs of (r, fs') \<Rightarrow> (r, JSON_storage fs'))"
| "add_messages im (SQLite_storage db) msgs =
     (case sqlite_add_messages im db msgs of (r, db') \<Rightarrow> (r, SQLite_storage db'))"

fun load_messages :: "import_env \<Rightarrow> storage \<Rightarrow> int \<Rightarrow> (exn + message list) \<times> storage" where
  "load_messages im (JSON_storage fs) limit =
     (case json_load_messages im fs limit of (r, fs') \<Rightarrow> (r, JSON_storage fs'))"
| "load_messages im (SQLite_storage db) limit =
     (case sqlite_load_messages im db limit of (r, db') \<Rightarrow> (r, SQLite_storage db'))"

fun remove_messages :: "import_env \<Rightarrow> storage \<Rightarrow> message list \<Rightarrow> (exn + nat) \<times> storage" where
  "remove_messages im (JSON_storage fs) msgs =
     (case json_remove_messages im fs msgs of (r, fs') \<Rightarrow> (r, JSON_storage fs'))"
| "remove_messages im (SQLite_storage db) msgs =
     (case sqlite_remove_messages im db msgs of (r, db') \<Rightarrow> (r, SQLite_storage db'))"

text \<open>
  The IoT client behind the \<open>IIoTClient\<close> interface, as a scripted endpoint: the
  outcome of the k-th \<open>send_telemetry\<close> call and of the k-th \<open>connect\<close> attempt are
  given, every message handed to \<open>send_telemetry\<close> is recorded, and so is every
  \<open>time.sleep\<close>. \<open>random_draw k\<close> is the k-th value of \<open>random.random()\<close>.
\<close>

record client =
  connected :: bool
  send_outcome :: "nat \<Rightarrow> bool"
  sent :: "message list"
  connect_outcome :: "nat \<Rightarrow> bool"
  connect_calls :: nat
  random_draw :: "nat \<Rightarrow> real"
  slept :: "real list"

definition is_connected :: "client \<Rightarrow> bool" where
  "is_connected c = connected c"

definition client_send_telemetry :: "client \<Rightarrow> message \<Rightarrow> bool \<times> client" where
  "client_send_telemetry c data = (send_outcome c (length (sent c)), c\<lparr>sent := sent c @ [data]\<rparr>)"

text \<open>The inner loop of \<open>flush_data\<close>: send in order, count the successes, stop at the
  first failure.\<close>

fun send_batch :: "client \<Rightarrow> message list \<Rightarrow> nat \<Rightarrow> nat \<times> client" where
  "send_batch c [] success_count = (success_count, c)"
| "send_batch c (msg # batch) success_count =
     (case client_send_telemetry c msg of
        (True, c') \<Rightarrow> send_batch c' batch (Suc success_count)
      | (False, c') \<Rightarrow> (success_count, c'))"

text \<open>\<open>OfflineStorageService.add_message\<close> (default \<open>None\<close>): without a storage the
  message is discarded.\<close>

definition add_message ::
  "import_env \<Rightarrow> storage option \<Rightarrow> message \<Rightarrow> (exn + unit) \<times> storage option" where
  "add_message im sto data = guarded im ()
     (case sto of
        None \<Rightarrow> (Inr (), None)
      | Some st \<Rightarrow> (case add_messages im st [data] of (r, st') \<Rightarrow> (r, Some st')))"


text \<open>The number of records a storage holds: the decoded list of the file, the rows of
  the table.\<close>

fun backlog :: "storage \<Rightarrow> nat" where
  "backlog (JSON_storage fs) = length (stored fs)"
| "backlog (SQLite_storage (Db (Some t))) = length (rows t)"
| "backlog (SQLite_storage _) = 0"


section \<open>Basic facts about the backends\<close>


lemma decoded_map_Good: "decoded (map Good xs) = xs"
  by (induction xs) simp_all

lemma list_all_map_Good: "list_all is_Good (map Good xs)"
  by (induction xs) simp_all

lemma load_entire_list_Absent: "load_entire_list im Absent = Inr []"
  by (simp add: load_entire_list_def)

lemma load_entire_list_written:
  "load_entire_list im (File (Doc_array (map Good xs))) = Inr xs"
  by (simp add: load_entire_list_def list_all_map_Good decoded_map_Good)

lemma save_entire_list_written:
  "xs \<noteq> [] \<Longrightarrow> fs \<noteq> Directory \<Longrightarrow>
   save_entire_list im fs xs = (Inr (), File (Doc_array (map Good xs)))"
  by (cases fs) (simp_all add: save_entire_list_def)

text \<open>The state that holds exactly the list \<open>xs\<close>: no file for the empty list.\<close>

definition holding :: "'m list \<Rightarrow> 'm path_state" where
  "holding xs = (if xs = [] then Absent else File (Doc_array (map Good xs)))"

lemma holding_not_Directory: "holding xs \<noteq> Directory"
  by (simp add: holding_def)

lemma load_entire_list_holding: "load_entire_list im (holding xs) = Inr xs"
  by (simp add: holding_def load_entire_list_Absent load_entire_list_written)

lemma stored_holding: "stored (holding xs) = xs"
  by (simp add: holding_def list_all_map_Good decoded_map_Good)

lemma save_entire_list_holding:
  "save_entire_list im (holding xs) ys = (Inr (), holding ys)"
proof (cases "ys = []")
  case True
  then show ?thesis
    by (cases "xs = []") (simp_all add: save_entire_list_def holding_def)
next
  case False
  then show ?thesis
    using save_entire_list_written [OF False holding_not_Directory, of im xs]
    by (simp add: holding_def)
qed

lemma json_add_messages_holding:
  "json_add_messages im (holding xs) ms = (Inr (), holding (xs @ ms))"
  by (cases "ms = []")
     (simp_all add: json_add_messages_def load_entire_list_holding save_entire_list_holding)

lemma json_add_all_holding:
  "json_add_all im (holding xs) mss = (Inr (), holding (xs @ concat mss))"
  by (induction mss arbitrary: xs) (simp_all add: json_add_messages_holding)

lemma json_load_messages_holding:
  "json_load_messages im (holding xs) limit =
     (Inr (if limit \<le> 0 then xs else take (nat limit) xs), holding xs)"
  by (simp add: json_load_messages_def load_entire_list_holding)

lemma remove_each_prefix: "remove_each xs (xs @ ys) n = (ys, n + length xs)"
  by (induction xs arbitrary: n) simp_all

lemma remove_each_take:
  "remove_each (take k xs) xs n = (drop k xs, n + length (take k xs))"
  using remove_each_prefix [of "take k xs" "drop k xs" n] by simp

lemma load_entire_list_nonempty:
  assumes "load_entire_list im fs = Inr current" and "current \<noteq> []"
  shows "fs = holding current"
proof (cases fs)
  case Absent
  with assms show ?thesis by (simp add: load_entire_list_def)
next
  case Directory
  with assms show ?thesis by (simp add: load_entire_list_def split: if_splits)
next
  case (File d)
  show ?thesis
  proof (cases d)
    case (Doc_array es)
    with assms File have good: "list_all is_Good es" and cur: "current = decoded es"
      by (auto simp: load_entire_list_def split: if_splits)
    have "map Good (decoded es) = es" using good
      by (induction es rule: decoded.induct) simp_all
    with File Doc_array cur assms(2) show ?thesis by (simp add: holding_def)
  next
    case Doc_other
    with assms File show ?thesis by (simp add: load_entire_list_def)
  qed
qed

lemma json_load_messages_nonempty:
  assumes "json_load_messages im fs limit = (Inr batch, fs')" and "batch \<noteq> []"
  shows "\<exists>current. fs = holding current \<and> fs' = fs \<and> current \<noteq> []
           \<and> batch = (if limit \<le> 0 then current else take (nat limit) current)"
proof (cases "load_entire_list im fs")
  case (Inl e)
  with assms show ?thesis
    by (auto simp: json_load_messages_def split: if_splits)
next
  case (Inr current)
  with assms have b: "batch = (if limit \<le> 0 then current else take (nat limit) current)"
    and f: "fs' = fs"
    by (auto simp: json_load_messages_def split: if_splits)
  with assms(2) have "current \<noteq> []" by (auto split: if_splits)
  with load_entire_list_nonempty [OF Inr this] b f show ?thesis by blast
qed

lemma json_remove_messages_take:
  "json_remove_messages im (holding xs) (take k xs) = (Inr (length (take k xs)), holding (drop k xs))"
proof (cases "take k xs = []")
  case True
  then have "drop k xs = xs" by auto
  with True show ?thesis by (auto simp add: json_remove_messages_def)
next
  case False
  then show ?thesis
    by (simp add: json_remove_messages_def load_entire_list_holding remove_each_take
        save_entire_list_holding)
qed

lemma row_ids_of_parse_rows: "set (row_ids_of (parse_rows rs)) \<subseteq> fst ` set rs"
  by (induction rs rule: parse_rows.induct) (auto split: sum.splits json.splits)

lemma parse_rows_nonempty_ids: "parse_rows rs \<noteq> [] \<Longrightarrow> row_ids_of (parse_rows rs) \<noteq> []"
  by (induction rs rule: parse_rows.induct) (auto split: sum.splits json.splits)

lemma set_select_rows: "set (select_rows t limit) \<subseteq> set (rows t)"
  by (auto simp: select_rows_def dest: in_set_takeD)

lemma filter_shrinks:
  assumes "x \<in> set xs" and "\<not> P x"
  shows "length (filter P xs) < length xs"
  using assms by (simp add: length_filter_less)

lemma flush_progress:
  assumes "load_messages im st 10 = (Inr batch, st1)" and "batch \<noteq> []"
    and "remove_messages im st1 batch = (Inr n, st2)"
  shows "backlog st2 < backlog st"
proof (cases st)
  case (JSON_storage fs)
  with assms(1) obtain fs1 where l: "json_load_messages im fs 10 = (Inr batch, fs1)"
    and st1: "st1 = JSON_storage fs1"
    by (auto split: prod.splits)
  from json_load_messages_nonempty [OF l assms(2)] obtain current where
    c: "fs = holding current" "fs1 = fs" "current \<noteq> []" "batch = take 10 current"
    by auto
  from assms(3) st1 c have "st2 = JSON_storage (holding (drop 10 current))"
    using json_remove_messages_take [of im current 10] by (auto split: prod.splits)
  with JSON_storage c show ?thesis by (simp add: stored_holding)
next
  case (SQLite_storage db)
  with assms(1,2) obtain t where t: "connect_db db = Some t"
    and b: "batch = parse_rows (select_rows t 10)" and st1: "st1 = SQLite_storage (Db (Some t))"
    by (auto simp: sqlite_load_messages_def split: prod.splits option.splits if_splits)
  from t have db: "db = Db (Some t)" by (cases db) simp_all
  from parse_rows_nonempty_ids assms(2) b have ne: "row_ids_of batch \<noteq> []" by simp
  then obtain i where i: "i \<in> set (row_ids_of batch)" by (cases "row_ids_of batch") auto
  with row_ids_of_parse_rows b set_select_rows obtain r where r: "r \<in> set (rows t)" "fst r = i"
    by blast
  from assms(3) st1 ne assms(2)
  have "st2 = SQLite_storage (Db (Some (fst (delete_rows t (row_ids_of batch)))))"
    by (auto simp: sqlite_remove_messages_def split: prod.splits)
  moreover have "length (filter (\<lambda>r. fst r \<notin> set (row_ids_of batch)) (rows t)) < length (rows t)"
    using filter_shrinks [of r "rows t" "\<lambda>r. fst r \<notin> set (row_ids_of batch)"] r i by simp
  ultimately show ?thesis using db SQLite_storage by (simp add: delete_rows_def)
qed


section \<open>The flush loop\<close>

text \<open>
  The \<open>while True\<close> loop of \<open>flush_data\<close>: load a batch of ten, send it in order,
  remove the messages that were sent, go on only when the whole batch was sent. It
  terminates because a fully sent batch is removed.
\<close>

function flush_loop :: "import_env \<Rightarrow> storage \<Rightarrow> client \<Rightarrow> (exn + unit) \<times> storage \<times> client" where
  "flush_loop im st c =
     (case load_messages im st 10 of
        (Inl e, st1) \<Rightarrow> (Inl e, st1, c)
      | (Inr batch, st1) \<Rightarrow>
          (if batch = [] then (Inr (), st1, c)
           else
             (case send_batch c batch 0 of
                (success_count, c1) \<Rightarrow>
                  (case (if 0 < success_count
                         then remove_messages im st1 (take success_count batch)
                         else (Inr 0, st1)) of
                     (Inl e, st2) \<Rightarrow> (Inl e, st2, c1)
                   | (Inr removed, st2) \<Rightarrow>
                       (if success_count < length batch then (Inr (), st2, c1)
                        else flush_loop im st2 c1)))))"
  by pat_completeness auto
termination
proof (relation "measure (\<lambda>(im, st, c). backlog st)")
  show "wf (measure (\<lambda>(im, st, c). backlog st))" by simp
next
  fix im st c x y batch xa success_count c1 xb yb removed
  assume "(x, y) = load_messages im st 10" "x = Inr batch" "batch \<noteq> []"
    "(success_count, c1) = send_batch c batch 0"
    "(xb, yb) = (if 0 < success_count then remove_messages im y (take success_count batch) else (Inr 0, y))"
    "xb = Inr removed" "\<not> success_count < length batch"
  then show "((im, yb, c1), (im, st, c)) \<in> measure (\<lambda>(im, st, c). backlog st)"
    using flush_progress [of im st batch y removed yb]
    by (auto split: if_splits)
qed


text \<open>\<open>OfflineStorageService.flush_data\<close> (default \<open>None\<close>): nothing without a
  storage, without an attached client, or when the client is not connected.\<close>

definition flush_data ::
  "import_env \<Rightarrow> storage option \<Rightarrow> client option
     \<Rightarrow> (exn + unit) \<times> storage option \<times> client option" where
  "flush_data im sto co = guarded im ()
     (case sto of
        None \<Rightarrow> (Inr (), None, co)
      | Some st \<Rightarrow>
          (case co of
             None \<Rightarrow> (Inr (), Some st, None)
           | Some c \<Rightarrow>
               (if \<not> is_connected c then (Inr (), Some st, Some c)
                else (case flush_loop im st c of (r, st', c') \<Rightarrow> (r, Some st', Some c')))))"


section \<open>The manager's send_telemetry\<close>

record manager =
  mgr_client :: client
  mgr_storage :: "storage option"

definition send_telemetry :: "import_env \<Rightarrow> manager \<Rightarrow> message \<Rightarrow> (exn + bool) \<times> manager" where
  "send_telemetry im m data =
     (if \<not> is_connected (mgr_client m) then
        (case add_message im (mgr_storage m) data of
           (Inl e, sto) \<Rightarrow> (Inl e, m\<lparr>mgr_storage := sto\<rparr>)
         | (Inr u, sto) \<Rightarrow> (Inr False, m\<lparr>mgr_storage := sto\<rparr>))
      else
        (case client_send_telemetry (mgr_client m) data of
           (was_sent, c') \<Rightarrow>
             (if \<not> was_sent then
                (case add_message im (mgr_storage m) data of
                   (Inl e, sto) \<Rightarrow> (Inl e, \<lparr>mgr_client = c', mgr_storage = sto\<rparr>)
                 | (Inr u, sto) \<Rightarrow> (Inr False, \<lparr>mgr_client = c', mgr_storage = sto\<rparr>))
              else (Inr True, m\<lparr>mgr_client := c'\<rparr>))))"


section \<open>Reconnecting with backoff\<close>

text \<open>
  \<open>connect\<close> of a provider client: at once successful when already connected, otherwise
  one attempt whose outcome the script gives. \<open>random.uniform(a, b)\<close> is
  \<open>a + (b - a) * random()\<close>. Times are real numbers; the rounding of floating-point
  arithmetic is outside the model.
\<close>

definition client_connect :: "client \<Rightarrow> bool \<times> client" where
  "client_connect c =
     (if connected c then (True, c\<lparr>connect_calls := Suc (connect_calls c)\<rparr>)
      else (connect_outcome c (connect_calls c),
            c\<lparr>connected := connect_outcome c (connect_calls c),
              connect_calls := Suc (connect_calls c)\<rparr>))"

definition base_delay :: real where
  "base_delay = 2"

definition uniform :: "real \<Rightarrow> real \<Rightarrow> real \<Rightarrow> real" where
  "uniform a b u = a + (b - a) * u"

definition backoff_delay :: "nat \<Rightarrow> real" where
  "backoff_delay attempt = base_delay * 2 ^ (attempt - 1)"

definition sleep :: "real \<Rightarrow> client \<Rightarrow> client" where
  "sleep seconds c = c\<lparr>slept := slept c @ [seconds]\<rparr>"

text \<open>The loop \<open>for attempt in range(1, max_retries + 1)\<close> over the attempt numbers that
  are left. Each failed attempt draws a jitter and sleeps.\<close>

fun reconnect_loop :: "nat list \<Rightarrow> client \<Rightarrow> bool \<times> client" where
  "reconnect_loop [] c = (False, c)"
| "reconnect_loop (attempt # attempts) c =
     (case client_connect c of
        (True, c') \<Rightarrow> (True, c')
      | (False, c') \<Rightarrow>
          reconnect_loop attempts
            (sleep (backoff_delay attempt
                    + uniform 0 (0.3 * backoff_delay attempt) (random_draw c' (length (slept c'))))
               c'))"

definition reconnect :: "client \<Rightarrow> int \<Rightarrow> bool \<times> client" where
  "reconnect c max_retries =
     (if connected c then (True, c)
      else reconnect_loop [1 ..< nat (max_retries + 1)] c)"



section \<open>Vocabulary for the flush properties\<close>

text \<open>
  The number of sends that succeed before the first failure, when the messages \<open>xs\<close>
  are sent in order and the first of them is the k-th call of the endpoint.
\<close>

fun accepted :: "(nat \<Rightarrow> bool) \<Rightarrow> nat \<Rightarrow> 'a list \<Rightarrow> nat" where
  "accepted f k [] = 0"
| "accepted f k (x # xs) = (if f k then Suc (accepted f (Suc k) xs) else 0)"

text \<open>The messages a storage holds, in the order \<open>load_messages(0)\<close> drains them.\<close>

fun contents :: "storage \<Rightarrow> message list" where
  "contents (JSON_storage fs) = stored fs"
| "contents (SQLite_storage (Db (Some t))) = parse_rows (sort_key fst (rows t))"
| "contents (SQLite_storage _) = []"

text \<open>A row that \<open>load_messages\<close> turns into a message: its text is a JSON object.\<close>

fun parses :: "int \<times> payload \<Rightarrow> bool" where
  "parses (row_id, Encoded (JObject d)) = True"
| "parses (row_id, _) = False"

text \<open>A storage whose table, if it has one, is as SQLite keeps it.\<close>

fun well_formed :: "storage \<Rightarrow> bool" where
  "well_formed (JSON_storage fs) = True"
| "well_formed (SQLite_storage (Db (Some t))) = table_ok t"
| "well_formed (SQLite_storage _) = True"

text \<open>A storage with no row that \<open>load_messages\<close> skips.\<close>

fun clean :: "storage \<Rightarrow> bool" where
  "clean (JSON_storage fs) = True"
| "clean (SQLite_storage (Db (Some t))) = list_all parses (rows t)"
| "clean (SQLite_storage _) = True"

text \<open>A storage whose next batch is empty (or cannot be loaded).\<close>

definition drained :: "import_env \<Rightarrow> storage \<Rightarrow> bool" where
  "drained im st = (case fst (load_messages im st 10) of Inr (m # ms) \<Rightarrow> False | _ \<Rightarrow> True)"

text \<open>The rows that inserting \<open>msgs\<close> adds after the id \<open>l\<close>, and the messages
  \<open>load_messages\<close> makes of them.\<close>

fun numbered :: "int \<Rightarrow> message list \<Rightarrow> (int \<times> payload) list" where
  "numbered l [] = []"
| "numbered l (msg # msgs) = (l + 1, Encoded (JObject msg)) # numbered (l + 1) msgs"

fun stamped :: "int \<Rightarrow> message list \<Rightarrow> message list" where
  "stamped l [] = []"
| "stamped l (msg # msgs) = fmupd ''_db_id'' (JInt (l + 1)) msg # stamped (l + 1) msgs"

text \<open>The number of connect attempts that fail before the first success, among \<open>n\<close>
  attempts of which the first is the k-th call of \<open>connect\<close>.\<close>

fun failed_attempts :: "(nat \<Rightarrow> bool) \<Rightarrow> nat \<Rightarrow> nat \<Rightarrow> nat" where
  "failed_attempts f k 0 = 0"
| "failed_attempts f k (Suc n) = (if f k then 0 else Suc (failed_attempts f (Suc k) n))"

text \<open>The sleep after a failed attempt with the given number, when \<open>d\<close> jitters were drawn
  before.\<close>

definition backoff_sleep :: "client \<Rightarrow> nat \<Rightarrow> nat \<Rightarrow> real" where
  "backoff_sleep c attempt d =
     backoff_delay attempt + uniform 0 (0.3 * backoff_delay attempt) (random_draw c d)"

text \<open>A storage that can take a write: the path of the file-based backend is not a
  directory, the database of the embedded-SQL backend has its table.\<close>

fun usable :: "storage \<Rightarrow> bool" where
  "usable (JSON_storage fs) = (fs \<noteq> Directory)"
| "usable (SQLite_storage (Db (Some t))) = True"
| "usable (SQLite_storage _) = False"

text \<open>The message is stored: among the records of the file, or as the text of a row.\<close>

fun holds :: "storage \<Rightarrow> message \<Rightarrow> bool" where
  "holds (JSON_storage fs) msg = (msg \<in> set (stored fs))"
| "holds (SQLite_storage (Db (Some t))) msg = (json_dumps msg \<in> snd ` set (rows t))"
| "holds (SQLite_storage _) msg = False"

text \<open>The message a fetched row stands for, if it stands for one: its text must decode to a
  JSON object, which then gets the field \<open>_db_id\<close>.\<close>

fun row_message :: "int \<times> payload \<Rightarrow> message option" where
  "row_message (row_id, Encoded (JObject d)) = Some (fmupd ''_db_id'' (JInt row_id) d)"
| "row_message (row_id, _) = None"

text \<open>The constructors. \<open>JSONOfflineStorage.__init__\<close> stores the path and a lock and touches
  nothing on disk; \<open>SQLiteOfflineStorage.__init__\<close> runs \<open>_init_db\<close>.\<close>

definition json_init :: "'m path_state \<Rightarrow> 'm path_state" where
  "json_init fs = fs"

definition sqlite_init :: "import_env \<Rightarrow> db_file \<Rightarrow> db_file" where
  "sqlite_init im db = snd (init_db im db)"

fun db_exists :: "db_file \<Rightarrow> bool" where
  "db_exists No_file = False"
| "db_exists (Db t) = True"


section \<open>The FIFO contract of the file-based backend\<close>

text \<open>
  Claim C3. On the file-based backend, starting from a store with no file, after any run of
  \<open>add_messages\<close> calls with no removal in between (the lists \<open>mss\<close>, so
  \<open>add(m1), ..., add(mn)\<close> is the run of singleton lists), every call has returned
  normally, \<open>load_messages(0)\<close> returns exactly the added messages in insertion order,
  \<open>load_messages(limit)\<close> for \<open>limit > 0\<close> returns the first \<open>min(limit, n)\<close> of them,
  and \<open>load_messages\<close> leaves the stored state as it was.
\<close>

theorem json_fifo_drain:
  fixes mss :: "'m list list"
  assumes "json_add_all im Absent mss = (r, fs)"
  shows "r = Inr ()
    \<and> fst (json_load_messages im fs 0) = Inr (concat mss)
    \<and> (0 < limit \<longrightarrow>
         fst (json_load_messages im fs limit) = Inr (take (nat limit) (concat mss))
         \<and> length (take (nat limit) (concat mss)) = min (nat limit) (length (concat mss)))
    \<and> snd (json_load_messages im fs limit) = fs"
proof -
  have "Absent = holding ([] :: 'm list)" by (simp add: holding_def)
  then have "json_add_all im Absent mss = (Inr (), holding (concat mss))"
    using json_add_all_holding [of im "[]" mss] by simp
  with assms have r: "r = Inr ()" and fs: "fs = holding (concat mss)" by simp_all
  show ?thesis
    by (simp add: r fs json_load_messages_holding min.commute)
qed

theorem json_fifo_drain_witness:
  "json_add_all \<lparr>azure_imported = False, mqtt_imported = False, boto_imported = False\<rparr>
     Absent [[1::nat], [2], [3]] = (Inr (), File (Doc_array [Good 1, Good 2, Good 3]))
   \<and> fst (json_load_messages \<lparr>azure_imported = False, mqtt_imported = False, boto_imported = False\<rparr>
        (File (Doc_array [Good (1::nat), Good 2, Good 3])) 2) = Inr [1, 2]"
proof -
  let ?im = "\<lparr>azure_imported = False, mqtt_imported = False, boto_imported = False\<rparr>"
  have run: "json_add_all ?im Absent [[1::nat], [2], [3]]
             = (Inr (), File (Doc_array [Good 1, Good 2, Good 3]))"
    by (simp add: json_add_messages_def load_entire_list_def save_entire_list_def)
  from json_fifo_drain [OF run, of 2] run show ?thesis by simp
qed


section \<open>The outcome of a flush\<close>

lemma accepted_le: "accepted f k xs \<le> length xs"
  by (induction xs arbitrary: k) simp_all

lemma accepted_append:
  "accepted f k (xs @ ys) =
     (if accepted f k xs = length xs then length xs + accepted f (k + length xs) ys
      else accepted f k xs)"
  by (induction xs arbitrary: k) simp_all

lemma accepted_take_Suc:
  "accepted f k xs < length xs \<Longrightarrow> accepted f k (take (Suc (accepted f k xs)) xs) = accepted f k xs"
  by (induction xs arbitrary: k) (auto split: if_splits)

lemma send_batch_accepted:
  "send_batch c batch n =
     (n + accepted (send_outcome c) (length (sent c)) batch,
      c\<lparr>sent := sent c @ take (Suc (accepted (send_outcome c) (length (sent c)) batch)) batch\<rparr>)"
proof (induction batch arbitrary: c n)
  case Nil
  show ?case by simp
next
  case (Cons m batch)
  show ?case
  proof (cases "send_outcome c (length (sent c))")
    case True
    then show ?thesis
      by (simp add: client_send_telemetry_def Cons.IH)
  next
    case False
    then show ?thesis by (simp add: client_send_telemetry_def)
  qed
qed

lemma stored_nonempty: "stored fs \<noteq> [] \<Longrightarrow> fs = holding (stored fs)"
proof (cases fs)
  case (File d)
  assume ne: "stored fs \<noteq> []"
  show ?thesis
  proof (cases d)
    case (Doc_array es)
    with File ne have good: "list_all is_Good es" by (auto split: if_splits)
    have "map Good (decoded es) = es" using good
      by (induction es rule: decoded.induct) simp_all
    with File Doc_array ne good show ?thesis by (simp add: holding_def)
  next
    case Doc_other
    with File ne show ?thesis by simp
  qed
qed simp_all

lemma json_load_messages_state: "snd (json_load_messages im fs limit) = fs"
  by (cases "load_entire_list im fs")
     (simp_all add: json_load_messages_def)

lemma json_load_messages_prefix:
  assumes "json_load_messages im fs 10 = (Inr batch, fs1)"
  shows "batch = take 10 (stored fs)"
proof (cases "stored fs = []")
  case False
  from stored_nonempty [OF this] have "fs = holding (stored fs)" .
  then have "json_load_messages im fs 10 = (Inr (take 10 (stored fs)), fs)"
    using json_load_messages_holding [of im "stored fs" 10] by simp
  with assms show ?thesis by auto
next
  case True
  have "batch = []"
  proof (rule ccontr)
    assume "batch \<noteq> []"
    from json_load_messages_nonempty [OF assms this] True show False
      by (auto simp: stored_holding)
  qed
  with True show ?thesis by simp
qed


lemma parse_rows_append: "parse_rows (xs @ ys) = parse_rows xs @ parse_rows ys"
  by (induction xs rule: parse_rows.induct) (auto split: sum.splits json.splits)

lemma parse_rows_skip: "\<not> parses (i, raw) \<Longrightarrow> parse_rows ((i, raw) # rs) = parse_rows rs"
  by (cases "(i, raw)" rule: parses.cases) simp_all

lemma parse_rows_keep:
  "parses (i, raw) \<Longrightarrow> \<exists>d. parse_rows ((i, raw) # rs) = fmupd ''_db_id'' (JInt i) d # parse_rows rs"
  by (cases "(i, raw)" rule: parses.cases) auto

lemma row_ids_of_take_subset: "set (row_ids_of (take k ms)) \<subseteq> set (row_ids_of ms)"
proof (induction ms arbitrary: k)
  case Nil
  show ?case by simp
next
  case (Cons m ms)
  show ?case
  proof (cases k)
    case 0
    then show ?thesis by simp
  next
    case (Suc j)
    with Cons [of j] show ?thesis
      by (auto split: option.splits json.splits if_splits)
  qed
qed

lemma parse_rows_delete:
  "distinct (map fst rs) \<Longrightarrow>
   parse_rows (filter (\<lambda>r. fst r \<notin> set (row_ids_of (take k (parse_rows rs)))) rs)
     = drop k (parse_rows rs)"
proof (induction rs arbitrary: k)
  case Nil
  show ?case by simp
next
  case (Cons r rs)
  obtain i raw where r: "r = (i, raw)" by (cases r)
  from Cons.prems r have fresh: "i \<notin> fst ` set rs" and d: "distinct (map fst rs)" by auto
  have sub: "set (row_ids_of (take j (parse_rows rs))) \<subseteq> fst ` set rs" for j
    using row_ids_of_take_subset [of j "parse_rows rs"] row_ids_of_parse_rows [of rs] by blast
  show ?case
  proof (cases "parses (i, raw)")
    case False
    from sub fresh have "i \<notin> set (row_ids_of (take k (parse_rows rs)))" by blast
    with False r Cons.IH [OF d, of k] show ?thesis
      by (simp add: parse_rows_skip del: parse_rows.simps)
  next
    case True
    from parse_rows_keep [OF True, of rs] obtain dct where
      p: "parse_rows ((i, raw) # rs) = fmupd ''_db_id'' (JInt i) dct # parse_rows rs" by blast
    show ?thesis
    proof (cases k)
      case 0
      with r show ?thesis by (simp del: parse_rows.simps)
    next
      case (Suc j)
      have "filter (\<lambda>x. fst x \<noteq> i \<and> fst x \<notin> set (row_ids_of (take j (parse_rows rs)))) rs
            = filter (\<lambda>x. fst x \<notin> set (row_ids_of (take j (parse_rows rs)))) rs"
        using fresh by (intro filter_cong) auto
      with Suc r p Cons.IH [OF d, of j] show ?thesis by (simp del: parse_rows.simps)
    qed
  qed
qed

lemma table_ok_sorted: "table_ok t \<Longrightarrow> sort_key fst (rows t) = rows t"
  by (simp add: table_ok_def strict_sorted_iff sort_key_id_if_sorted)

lemma table_ok_distinct: "table_ok t \<Longrightarrow> distinct (map fst (rows t))"
  by (simp add: table_ok_def strict_sorted_iff)

lemma table_ok_filter: "table_ok t \<Longrightarrow> table_ok (t\<lparr>rows := filter P (rows t)\<rparr>)"
proof -
  assume ok: "table_ok t"
  then have "sorted_wrt (<) (map fst (filter P (rows t)))"
    by (simp add: table_ok_def sorted_wrt_map sorted_wrt_filter)
  moreover from ok have "list_all (\<lambda>r. fst r \<le> last_id t) (filter P (rows t))"
    by (simp add: table_ok_def list_all_iff)
  ultimately show ?thesis by (simp add: table_ok_def)
qed

lemma row_ids_of_nonempty:
  "0 < k \<Longrightarrow> parse_rows rs \<noteq> [] \<Longrightarrow> row_ids_of (take k (parse_rows rs)) \<noteq> []"
proof (induction rs)
  case Nil
  then show ?case by simp
next
  case (Cons r rs)
  obtain i raw where r: "r = (i, raw)" by (cases r)
  show ?case
  proof (cases "parses (i, raw)")
    case True
    from parse_rows_keep [OF True, of rs] Cons.prems(1) r show ?thesis
      by (cases k) (auto simp del: parse_rows.simps)
  next
    case False
    with Cons r show ?thesis by (simp add: parse_rows_skip del: parse_rows.simps)
  qed
qed

lemma load_messages_batch:
  assumes "well_formed st" and "load_messages im st 10 = (res, st1)"
  shows "well_formed st1 \<and> contents st1 = contents st \<and> (clean st \<longrightarrow> clean st1)
       \<and> load_messages im st1 10 = (res, st1)
       \<and> (\<forall>batch. res = Inr batch \<longrightarrow> (\<exists>rest. contents st = batch @ rest))"
proof (cases st)
  case (JSON_storage fs)
  with assms(2) have l: "json_load_messages im fs 10 = (res, fs)" and st1: "st1 = st"
    using json_load_messages_state [of im fs 10] by (auto split: prod.splits)
  have "\<exists>rest. stored fs = batch @ rest" if "res = Inr batch" for batch
    using json_load_messages_prefix [of im fs batch fs] l that
    by (metis append_take_drop_id)
  with JSON_storage st1 assms show ?thesis by simp
next
  case (SQLite_storage db)
  show ?thesis
  proof (cases "connect_db db")
    case None
    then have c: "contents st = []" using SQLite_storage by (cases db) simp_all
    from None assms(2) SQLite_storage
    have st1: "st1 = SQLite_storage (Db None)"
      and res: "res = handle_exceptions im [] (Inl OperationalError)"
      by (auto simp: sqlite_load_messages_def)
    have "\<exists>rest. contents st = batch @ rest" if "res = Inr batch" for batch
      using that res c by (auto split: if_splits)
    with st1 res c show ?thesis by (simp add: sqlite_load_messages_def)
  next
    case (Some t)
    then have db: "db = Db (Some t)" by (cases db) simp_all
    from assms(1) db SQLite_storage have ok: "table_ok t" by simp
    from Some assms(2) SQLite_storage db
    have st1: "st1 = st" and res: "res = Inr (parse_rows (select_rows t 10))"
      by (auto simp: sqlite_load_messages_def)
    have "rows t = take 10 (rows t) @ drop 10 (rows t)" by simp
    then have "parse_rows (rows t) = parse_rows (take 10 (rows t)) @ parse_rows (drop 10 (rows t))"
      by (metis parse_rows_append)
    then have "\<exists>rest. contents st = parse_rows (select_rows t 10) @ rest"
      using SQLite_storage db ok by (simp add: select_rows_def table_ok_sorted)
    with st1 res assms show ?thesis by simp
  qed
qed

lemma remove_messages_prefix:
  assumes "well_formed st" and "contents st = batch @ rest" and "0 < k" and "k \<le> length batch"
  shows "\<exists>n st2. remove_messages im st (take k batch) = (Inr n, st2) \<and> well_formed st2
           \<and> (clean st \<longrightarrow> clean st2) \<and> contents st2 = drop k batch @ rest"
proof (cases st)
  case (JSON_storage fs)
  from assms have ne: "batch \<noteq> []" by auto
  with assms(2) JSON_storage have "stored fs \<noteq> []" by simp
  from stored_nonempty [OF this] assms(2) JSON_storage have fs: "fs = holding (batch @ rest)" by simp
  from assms(4) have tk: "take k (batch @ rest) = take k batch"
    and dk: "drop k (batch @ rest) = drop k batch @ rest"
    by simp_all
  have "json_remove_messages im fs (take k batch)
          = (Inr (length (take k batch)), holding (drop k batch @ rest))"
    using json_remove_messages_take [of im "batch @ rest" k] unfolding tk dk fs .
  with JSON_storage show ?thesis
    by (simp add: stored_holding)
next
  case (SQLite_storage db)
  from assms have ne: "contents st \<noteq> []" by auto
  with SQLite_storage obtain t where db: "db = Db (Some t)"
    by (cases st rule: contents.cases) auto
  from assms(1) db SQLite_storage have ok: "table_ok t" by simp
  from assms(2) SQLite_storage db ok have c: "parse_rows (rows t) = batch @ rest"
    by (simp add: table_ok_sorted)
  from assms(4) c have tk: "take k batch = take k (parse_rows (rows t))" by simp
  from c ne assms(2) have "parse_rows (rows t) \<noteq> []" by simp
  from row_ids_of_nonempty [OF assms(3) this] tk have ids: "row_ids_of (take k batch) \<noteq> []" by simp
  then have "take k batch \<noteq> []" using assms(3) by auto
  with ids db SQLite_storage
  have r: "remove_messages im st (take k batch)
             = (Inr (snd (delete_rows t (row_ids_of (take k batch)))),
                SQLite_storage (Db (Some (fst (delete_rows t (row_ids_of (take k batch)))))))"
    by (simp add: sqlite_remove_messages_def split: prod.splits)
  let ?t' = "fst (delete_rows t (row_ids_of (take k batch)))"
  have t': "?t' = t\<lparr>rows := filter (\<lambda>r. fst r \<notin> set (row_ids_of (take k batch))) (rows t)\<rparr>"
    by (simp add: delete_rows_def)
  have ok': "table_ok ?t'" unfolding t' by (rule table_ok_filter [OF ok])
  have "parse_rows (rows ?t') = drop k (parse_rows (rows t))"
    using parse_rows_delete [OF table_ok_distinct [OF ok], of k] tk by (simp add: delete_rows_def)
  with c assms(4) have cont: "parse_rows (rows ?t') = drop k batch @ rest" by simp
  have cl: "list_all parses (rows t) \<Longrightarrow> list_all parses (rows ?t')"
    by (simp add: t' list_all_iff)
  from r ok' cont cl SQLite_storage db show ?thesis
    by (simp add: table_ok_sorted)
qed

lemma drained_after_load:
  "load_messages im st1 10 = (res, st1) \<Longrightarrow> (\<And>m ms. res \<noteq> Inr (m # ms)) \<Longrightarrow> drained im st1"
  by (cases res) (auto simp: drained_def split: list.splits)

lemma flush_loop_outcome:
  assumes "well_formed st" and "flush_loop im st c = (r, st', c')"
  shows "well_formed st' \<and> (clean st \<longrightarrow> clean st')
       \<and> (\<exists>n. c' = c\<lparr>sent := sent c @ take n (contents st)\<rparr> \<and> n \<le> length (contents st)
            \<and> contents st' =
                drop (accepted (send_outcome c) (length (sent c)) (take n (contents st))) (contents st)
            \<and> (n = Suc (accepted (send_outcome c) (length (sent c)) (take n (contents st)))
                \<or> n = accepted (send_outcome c) (length (sent c)) (take n (contents st))
                  \<and> drained im st'))"
  using assms
proof (induction im st c arbitrary: r st' c' rule: flush_loop.induct)
  case (1 im st c)
  let ?f = "send_outcome c" and ?k0 = "length (sent c)"
  obtain res st1 where l: "load_messages im st 10 = (res, st1)" by force
  from load_messages_batch [OF "1.prems"(1) l]
  have wf1: "well_formed st1" and c1: "contents st1 = contents st"
    and cl1: "clean st \<longrightarrow> clean st1" and l1: "load_messages im st1 10 = (res, st1)"
    and pre: "\<And>batch. res = Inr batch \<Longrightarrow> \<exists>rest. contents st = batch @ rest"
    by blast+
  have stop: ?case if "r = r0" "st' = st1" "c' = c" "\<And>m ms. res \<noteq> Inr (m # ms)" for r0
  proof -
    from drained_after_load [OF l1 that(4)] have "drained im st1" .
    with that wf1 c1 cl1 show ?thesis
      by (intro conjI exI [of _ 0]) simp_all
  qed
  show ?case
  proof (cases res)
    case (Inl e)
    from "1.prems"(2) l Inl have "r = Inl e" "st' = st1" "c' = c"
      by (subst (asm) flush_loop.simps, simp)+
    then show ?thesis using Inl by (intro stop) simp_all
  next
    case (Inr batch)
    show ?thesis
    proof (cases "batch = []")
      case True
      from "1.prems"(2) l Inr True have "r = Inr ()" "st' = st1" "c' = c"
        by (subst (asm) flush_loop.simps, simp)+
      then show ?thesis using Inr True by (intro stop) simp_all
    next
      case False
      from pre [OF Inr] obtain rest where xs: "contents st = batch @ rest" by blast
      define k where "k = accepted ?f ?k0 batch"
      define c1 where "c1 = c\<lparr>sent := sent c @ take (Suc k) batch\<rparr>"
      have sb: "send_batch c batch 0 = (k, c1)"
        by (simp add: send_batch_accepted k_def c1_def)
      have kle: "k \<le> length batch" unfolding k_def by (rule accepted_le)
      show ?thesis
      proof (cases "k < length batch")
        case True
        have tk: "take (Suc k) (contents st) = take (Suc k) batch"
          using True xs by simp
        have acc: "accepted ?f ?k0 (take (Suc k) batch) = k"
          using accepted_take_Suc [of ?f ?k0 batch] True by (simp add: k_def)
        have "\<exists>st2. st' = st2 \<and> r = Inr () \<and> c' = c1 \<and> well_formed st2
                  \<and> (clean st \<longrightarrow> clean st2) \<and> contents st2 = drop k batch @ rest"
        proof (cases "0 < k")
          case False
          with "1.prems"(2) l Inr \<open>batch \<noteq> []\<close> sb True
          have "r = Inr ()" "st' = st1" "c' = c1"
            by (subst (asm) flush_loop.simps, simp)+
          with False wf1 cl1 c1 xs show ?thesis by simp
        next
          case kpos: True
          from remove_messages_prefix [OF wf1 _ kpos kle, of rest im] c1 xs
          obtain n st2 where rm: "remove_messages im st1 (take k batch) = (Inr n, st2)"
            and wf2: "well_formed st2" and cl2: "clean st1 \<longrightarrow> clean st2"
            and c2: "contents st2 = drop k batch @ rest"
            by auto
          from "1.prems"(2) l Inr \<open>batch \<noteq> []\<close> sb True kpos rm
          have "r = Inr ()" "st' = st2" "c' = c1"
            by (subst (asm) flush_loop.simps, simp)+
          with wf2 cl1 cl2 c2 show ?thesis by simp
        qed
        then have r: "c' = c1" "well_formed st'" "clean st \<longrightarrow> clean st'"
          "contents st' = drop k batch @ rest" by auto
        have "contents st' = drop k (contents st)" using r(4) xs kle by simp
        with r tk acc True xs show ?thesis
          by (intro conjI exI [of _ "Suc k"]) (simp_all add: c1_def)
      next
        case False
        with kle have keq: "k = length batch" by simp
        with \<open>batch \<noteq> []\<close> have kpos: "0 < k" by simp
        from remove_messages_prefix [OF wf1 _ kpos kle, of rest im] c1 xs
        obtain n st2 where rm: "remove_messages im st1 (take k batch) = (Inr n, st2)"
          and wf2: "well_formed st2" and cl2: "clean st1 \<longrightarrow> clean st2"
          and c2: "contents st2 = drop k batch @ rest"
          by auto
        from "1.prems"(2) l Inr \<open>batch \<noteq> []\<close> sb False kpos rm
        have rec: "flush_loop im st2 c1 = (r, st', c')"
          by (subst (asm) flush_loop.simps) simp
        have ih: "well_formed st' \<and> (clean st2 \<longrightarrow> clean st')
           \<and> (\<exists>n. c' = c1\<lparr>sent := sent c1 @ take n (contents st2)\<rparr> \<and> n \<le> length (contents st2)
            \<and> contents st' =
                drop (accepted (send_outcome c1) (length (sent c1)) (take n (contents st2))) (contents st2)
            \<and> (n = Suc (accepted (send_outcome c1) (length (sent c1)) (take n (contents st2)))
                \<or> n = accepted (send_outcome c1) (length (sent c1)) (take n (contents st2))
                  \<and> drained im st'))"
        proof (rule "1.IH" [OF _ _ _ _ _ _ _ wf2 rec])
          show "(res, st1) = load_messages im st 10" using l by simp
          show "res = Inr batch" by (rule Inr)
          show "batch \<noteq> []" by fact
          show "(k, c1) = send_batch c batch 0" using sb by simp
          show "(Inr n, st2) = (if 0 < k then remove_messages im st1 (take k batch) else (Inr 0, st1))"
            using kpos rm by simp
          show "Inr n = Inr n" ..
          show "\<not> k < length batch" by (rule False)
        qed
        have rest2: "contents st2 = rest" using c2 keq by simp
        have s1: "sent c1 = sent c @ batch" "send_outcome c1 = ?f"
          by (simp_all add: c1_def keq)
        from ih obtain n2 where
          n2: "c' = c1\<lparr>sent := sent c1 @ take n2 rest\<rparr>" "n2 \<le> length rest"
            "contents st' = drop (accepted ?f (?k0 + length batch) (take n2 rest)) rest"
            "n2 = Suc (accepted ?f (?k0 + length batch) (take n2 rest))
             \<or> n2 = accepted ?f (?k0 + length batch) (take n2 rest) \<and> drained im st'"
          and wf': "well_formed st'" and cl': "clean st2 \<longrightarrow> clean st'"
          unfolding rest2 s1 by auto
        let ?n = "length batch + n2"
        have tk: "take ?n (contents st) = batch @ take n2 rest" using xs by simp
        have acc: "accepted ?f ?k0 (batch @ take n2 rest)
                     = length batch + accepted ?f (?k0 + length batch) (take n2 rest)"
          using keq by (simp add: accepted_append k_def)
        have "c' = c\<lparr>sent := sent c @ take ?n (contents st)\<rparr>"
          using n2(1) by (simp add: tk c1_def keq)
        moreover have "?n \<le> length (contents st)" using n2(2) xs by simp
        moreover have "contents st' = drop (accepted ?f ?k0 (take ?n (contents st))) (contents st)"
          using n2(3) xs by (simp add: tk acc)
        moreover have "?n = Suc (accepted ?f ?k0 (take ?n (contents st)))
             \<or> ?n = accepted ?f ?k0 (take ?n (contents st)) \<and> drained im st'"
          using n2(4) by (auto simp add: tk acc)
        ultimately show ?thesis using wf' cl' cl1 cl2 by blast
      qed
    qed
  qed
qed


lemma parse_rows_all_parse: "list_all parses rs \<Longrightarrow> parse_rows rs = [] \<Longrightarrow> rs = []"
proof (cases rs)
  case (Cons r rs')
  assume "list_all parses rs" "parse_rows rs = []"
  with Cons parse_rows_keep [of "fst r" "snd r" rs'] show ?thesis by auto
qed simp

lemma drained_clean:
  assumes "well_formed st" and "clean st" and "drained im st"
  shows "contents st = []"
proof (cases st)
  case (JSON_storage fs)
  show ?thesis
  proof (rule ccontr)
    assume "contents st \<noteq> []"
    with JSON_storage have ne: "stored fs \<noteq> []" by simp
    from stored_nonempty [OF ne] have "fs = holding (stored fs)" .
    then have "json_load_messages im fs 10 = (Inr (take 10 (stored fs)), fs)"
      using json_load_messages_holding [of im "stored fs" 10] by simp
    with assms(3) JSON_storage ne show False
      by (cases "stored fs") (simp_all add: drained_def)
  qed
next
  case (SQLite_storage db)
  show ?thesis
  proof (cases "connect_db db")
    case None
    with SQLite_storage show ?thesis by (cases db) simp_all
  next
    case (Some t)
    then have db: "db = Db (Some t)" by (cases db) simp_all
    from assms(1,2) db SQLite_storage have ok: "table_ok t" and cl: "list_all parses (rows t)"
      by simp_all
    from cl have cl10: "list_all parses (take 10 (rows t))"
      by (auto simp: list_all_iff dest: in_set_takeD)
    from assms(3) db SQLite_storage ok have "parse_rows (take 10 (rows t)) = []"
      by (cases "parse_rows (take 10 (rows t))")
         (simp_all add: drained_def sqlite_load_messages_def select_rows_def table_ok_sorted)
    from parse_rows_all_parse [OF cl10 this] have "rows t = []" by simp
    with db SQLite_storage show ?thesis by simp
  qed
qed

lemma accepted_stop:
  assumes "n = Suc (accepted f k (take n xs))" and "n \<le> length xs"
  shows "accepted f k xs = accepted f k (take n xs)"
proof -
  have "accepted f k (take n xs @ drop n xs) = accepted f k (take n xs)"
    using assms by (subst accepted_append) simp
  then show ?thesis by simp
qed

lemma flush_data_outcome:
  assumes "well_formed st" and "is_connected c"
    and "flush_data im (Some st) (Some c) = (r, sto', co')"
  shows "\<exists>st' n. sto' = Some st' \<and> co' = Some (c\<lparr>sent := sent c @ take n (contents st)\<rparr>)
       \<and> n \<le> length (contents st) \<and> well_formed st'
       \<and> contents st' =
           drop (accepted (send_outcome c) (length (sent c)) (take n (contents st))) (contents st)
       \<and> (n = Suc (accepted (send_outcome c) (length (sent c)) (take n (contents st)))
           \<or> n = accepted (send_outcome c) (length (sent c)) (take n (contents st))
             \<and> drained im st')
       \<and> (clean st \<longrightarrow>
            n = min (Suc (accepted (send_outcome c) (length (sent c)) (contents st)))
                  (length (contents st))
            \<and> contents st' = drop (accepted (send_outcome c) (length (sent c)) (contents st))
                               (contents st))"
proof -
  let ?f = "send_outcome c" and ?k0 = "length (sent c)" and ?xs = "contents st"
  obtain r0 st' c' where fl: "flush_loop im st c = (r0, st', c')" by (cases "flush_loop im st c")
  with assms(2,3) have sto: "sto' = Some st'" and co: "co' = Some c'"
    by (auto simp: flush_data_def)
  from flush_loop_outcome [OF assms(1) fl] obtain n where
    wf: "well_formed st'" and cl: "clean st \<longrightarrow> clean st'"
    and c': "c' = c\<lparr>sent := sent c @ take n ?xs\<rparr>" and n: "n \<le> length ?xs"
    and cont: "contents st' = drop (accepted ?f ?k0 (take n ?xs)) ?xs"
    and alt: "n = Suc (accepted ?f ?k0 (take n ?xs))
              \<or> n = accepted ?f ?k0 (take n ?xs) \<and> drained im st'"
    by blast
  have "n = min (Suc (accepted ?f ?k0 ?xs)) (length ?xs)
        \<and> contents st' = drop (accepted ?f ?k0 ?xs) ?xs" if "clean st"
    using alt
  proof
    assume stop: "n = Suc (accepted ?f ?k0 (take n ?xs))"
    from accepted_stop [OF stop n] have "accepted ?f ?k0 ?xs = accepted ?f ?k0 (take n ?xs)" .
    with stop n cont show ?thesis by simp
  next
    assume all: "n = accepted ?f ?k0 (take n ?xs) \<and> drained im st'"
    with that cl wf drained_clean have "contents st' = []" by blast
    with cont all n have "n = length ?xs" by simp
    with all cont show ?thesis by simp
  qed
  with sto co wf c' n cont alt show ?thesis by blast
qed


text \<open>
  Claim C1. A flush on a connected client, from any well-formed storage and for any
  sequence of send outcomes: the messages handed to the endpoint are a prefix of the stored
  messages in drain order, appended to the send record in that order; the flush stops at
  the first failed send (at most the last send failed); the storage afterwards holds the
  stored messages without exactly those that were sent successfully, so nothing is removed
  when the first send fails; and when the flush stopped without a failure the next batch
  is empty. When no stored row is skipped by the drain, that number of sends is the
  successes plus the one failure, or everything. In particular, a storage holding
  \<open>[m1, m2, m3]\<close> and an endpoint that accepts the first send and refuses the second
  leave \<open>[m2, m3]\<close> stored after exactly two sends, of \<open>m1\<close> and \<open>m2\<close>.
\<close>

theorem flush_batch_semantics:
  assumes "well_formed st" and "is_connected c"
    and "flush_data im (Some st) (Some c) = (r, sto', co')"
  shows "\<exists>st' n. sto' = Some st' \<and> co' = Some (c\<lparr>sent := sent c @ take n (contents st)\<rparr>)
       \<and> n \<le> length (contents st)
       \<and> contents st' =
           drop (accepted (send_outcome c) (length (sent c)) (take n (contents st))) (contents st)
       \<and> (n = Suc (accepted (send_outcome c) (length (sent c)) (take n (contents st)))
           \<or> n = accepted (send_outcome c) (length (sent c)) (take n (contents st))
             \<and> drained im st')
       \<and> (clean st \<longrightarrow>
            n = min (Suc (accepted (send_outcome c) (length (sent c)) (contents st)))
                  (length (contents st))
            \<and> contents st' = drop (accepted (send_outcome c) (length (sent c)) (contents st))
                               (contents st))
       \<and> (\<forall>m1 m2 m3.
            clean st \<and> contents st = [m1, m2, m3] \<and> send_outcome c (length (sent c))
            \<and> \<not> send_outcome c (Suc (length (sent c)))
            \<longrightarrow> contents st' = [m2, m3] \<and> co' = Some (c\<lparr>sent := sent c @ [m1, m2]\<rparr>))"
proof -
  from flush_data_outcome [OF assms] obtain st' n where
    o: "sto' = Some st'" "co' = Some (c\<lparr>sent := sent c @ take n (contents st)\<rparr>)"
      "n \<le> length (contents st)"
      "contents st' =
         drop (accepted (send_outcome c) (length (sent c)) (take n (contents st))) (contents st)"
      "n = Suc (accepted (send_outcome c) (length (sent c)) (take n (contents st)))
       \<or> n = accepted (send_outcome c) (length (sent c)) (take n (contents st))
         \<and> drained im st'"
    and cl: "clean st \<longrightarrow>
            n = min (Suc (accepted (send_outcome c) (length (sent c)) (contents st)))
                  (length (contents st))
            \<and> contents st' = drop (accepted (send_outcome c) (length (sent c)) (contents st))
                               (contents st)"
    by blast
  have "contents st' = [m2, m3] \<and> co' = Some (c\<lparr>sent := sent c @ [m1, m2]\<rparr>)"
    if "clean st" "contents st = [m1, m2, m3]" "send_outcome c (length (sent c))"
      "\<not> send_outcome c (Suc (length (sent c)))" for m1 m2 m3
  proof -
    from that have "accepted (send_outcome c) (length (sent c)) (contents st) = 1" by simp
    with cl that(1,2) o(2) show ?thesis by simp
  qed
  with o cl show ?thesis by blast
qed

theorem flush_batch_semantics_witness:
  "well_formed (JSON_storage (File (Doc_array
      [Good (fmupd ''t'' (JInt 1) fmempty), Good (fmupd ''t'' (JInt 2) fmempty),
       Good (fmupd ''t'' (JInt 3) fmempty)])))
   \<and> (\<exists>st'. fst (snd (flush_data
          \<lparr>azure_imported = False, mqtt_imported = False, boto_imported = False\<rparr>
          (Some (JSON_storage (File (Doc_array
            [Good (fmupd ''t'' (JInt 1) fmempty), Good (fmupd ''t'' (JInt 2) fmempty),
             Good (fmupd ''t'' (JInt 3) fmempty)]))))
          (Some \<lparr>connected = True, send_outcome = (\<lambda>k. k = 0), sent = [],
                 connect_outcome = (\<lambda>k. True), connect_calls = 0,
                 random_draw = (\<lambda>k. 0), slept = []\<rparr>))) = Some st'
        \<and> contents st' = [fmupd ''t'' (JInt 2) fmempty, fmupd ''t'' (JInt 3) fmempty])
   \<and> snd (snd (flush_data
          \<lparr>azure_imported = False, mqtt_imported = False, boto_imported = False\<rparr>
          (Some (JSON_storage (File (Doc_array
            [Good (fmupd ''t'' (JInt 1) fmempty), Good (fmupd ''t'' (JInt 2) fmempty),
             Good (fmupd ''t'' (JInt 3) fmempty)]))))
          (Some \<lparr>connected = True, send_outcome = (\<lambda>k. k = 0), sent = [],
                 connect_outcome = (\<lambda>k. True), connect_calls = 0,
                 random_draw = (\<lambda>k. 0), slept = []\<rparr>)))
       = Some \<lparr>connected = True, send_outcome = (\<lambda>k. k = 0),
               sent = [fmupd ''t'' (JInt 1) fmempty, fmupd ''t'' (JInt 2) fmempty],
               connect_outcome = (\<lambda>k. True), connect_calls = 0,
               random_draw = (\<lambda>k. 0), slept = []\<rparr>"
proof -
  let ?im = "\<lparr>azure_imported = False, mqtt_imported = False, boto_imported = False\<rparr>"
  let ?m1 = "fmupd ''t'' (JInt 1) fmempty" and ?m2 = "fmupd ''t'' (JInt 2) fmempty"
    and ?m3 = "fmupd ''t'' (JInt 3) fmempty"
  let ?st = "JSON_storage (File (Doc_array [Good ?m1, Good ?m2, Good ?m3]))"
  let ?c = "\<lparr>connected = True, send_outcome = (\<lambda>k. k = 0), sent = [],
              connect_outcome = (\<lambda>k. True), connect_calls = 0,
              random_draw = (\<lambda>k. 0::real), slept = []\<rparr>"
  let ?X = "flush_data ?im (Some ?st) (Some ?c)"
  have wf: "well_formed ?st" by simp
  have conn: "is_connected ?c" by (simp add: is_connected_def)
  have run: "?X = (fst ?X, fst (snd ?X), snd (snd ?X))" by simp
  from flush_batch_semantics [OF wf conn run] obtain st' where
    st': "fst (snd ?X) = Some st'"
    and ex: "\<forall>m1 m2 m3.
            clean ?st \<and> contents ?st = [m1, m2, m3] \<and> send_outcome ?c (length (sent ?c))
            \<and> \<not> send_outcome ?c (Suc (length (sent ?c)))
            \<longrightarrow> contents st' = [m2, m3] \<and> snd (snd ?X) = Some (?c\<lparr>sent := sent ?c @ [m1, m2]\<rparr>)"
    by blast
  have "clean ?st \<and> contents ?st = [?m1, ?m2, ?m3] \<and> send_outcome ?c (length (sent ?c))
            \<and> \<not> send_outcome ?c (Suc (length (sent ?c)))"
    by simp
  with ex have "contents st' = [?m2, ?m3] \<and> snd (snd ?X) = Some (?c\<lparr>sent := sent ?c @ [?m1, ?m2]\<rparr>)"
    by blast
  with st' wf show ?thesis by simp
qed

section \<open>What a flush of the embedded-SQL backend transmits\<close>

lemma insert_all_rows:
  "rows (insert_all t msgs) = rows t @ numbered (last_id t) msgs
   \<and> last_id (insert_all t msgs) = last_id t + int (length msgs)"
  by (induction msgs arbitrary: t) (simp_all add: insert_row_def)

lemma parse_rows_numbered: "parse_rows (numbered l msgs) = stamped l msgs"
  by (induction msgs arbitrary: l) simp_all

lemma numbered_ids: "r \<in> set (numbered l msgs) \<Longrightarrow> l < fst r \<and> fst r \<le> l + int (length msgs)"
  by (induction msgs arbitrary: l) fastforce+

lemma numbered_sorted: "sorted_wrt (<) (map fst (numbered l msgs))"
proof (induction msgs arbitrary: l)
  case Nil
  show ?case by simp
next
  case (Cons m msgs)
  have "l + 1 < fst r" if "r \<in> set (numbered (l + 1) msgs)" for r
    using numbered_ids [OF that] by simp
  with Cons [of "l + 1"] show ?case by auto
qed

lemma table_ok_insert_all: "table_ok t \<Longrightarrow> table_ok (insert_all t msgs)"
proof -
  assume ok: "table_ok t"
  have old: "fst r \<le> last_id t" if "r \<in> set (rows t)" for r
    using ok that by (simp add: table_ok_def list_all_iff)
  have new: "last_id t < fst r \<and> fst r \<le> last_id t + int (length msgs)"
    if "r \<in> set (numbered (last_id t) msgs)" for r
    using numbered_ids [OF that] .
  have "sorted_wrt (<) (map fst (rows t @ numbered (last_id t) msgs))"
    using ok numbered_sorted [of "last_id t" msgs] old new
    by (fastforce simp: table_ok_def sorted_wrt_append)
  moreover have "list_all (\<lambda>r. fst r \<le> last_id t + int (length msgs))
                   (rows t @ numbered (last_id t) msgs)"
    using old new by (fastforce simp: list_all_iff)
  ultimately show ?thesis by (simp add: table_ok_def insert_all_rows)
qed

lemma sqlite_add_messages_table:
  "sqlite_add_messages im (Db (Some t)) msgs = (Inr (), Db (Some (insert_all t msgs)))"
  by (cases msgs) (simp_all add: sqlite_add_messages_def)

lemma stamped_exposes: "m \<in> set (stamped l msgs) \<Longrightarrow> \<exists>i. fmlookup m ''_db_id'' = Some (JInt i)"
  by (induction msgs arbitrary: l) auto

text \<open>
  Claim C2, as amended. On the embedded-SQL backend the identifier is transmitted: when
  \<open>msgs\<close> are enqueued into a table and a flush follows on a connected client, the
  messages handed to the endpoint are a prefix of the drained rows that were there before
  followed by the enqueued messages, each enqueued message carrying the field
  \<open>_db_id\<close> set to the id its row was given.
\<close>

theorem sqlite_flush_sends_row_id:
  assumes "table_ok t" and "is_connected c"
    and "sqlite_add_messages im (Db (Some t)) msgs = (ra, db1)"
    and "flush_data im (Some (SQLite_storage db1)) (Some c) = (r, sto', co')"
  shows "\<exists>n. co' = Some (c\<lparr>sent := sent c @ take n (parse_rows (rows t) @ stamped (last_id t) msgs)\<rparr>)
       \<and> (\<forall>m \<in> set (stamped (last_id t) msgs). \<exists>i. fmlookup m ''_db_id'' = Some (JInt i))"
proof -
  from assms(3) have db1: "db1 = Db (Some (insert_all t msgs))"
    by (simp add: sqlite_add_messages_table)
  have wf: "well_formed (SQLite_storage db1)"
    using table_ok_insert_all [OF assms(1)] by (simp add: db1)
  have "contents (SQLite_storage db1) = parse_rows (rows (insert_all t msgs))"
    using table_ok_insert_all [OF assms(1), of msgs] by (simp add: db1 table_ok_sorted)
  then have c: "contents (SQLite_storage db1) = parse_rows (rows t) @ stamped (last_id t) msgs"
    by (simp add: insert_all_rows parse_rows_append parse_rows_numbered)
  from flush_data_outcome [OF wf assms(2,4)] c stamped_exposes show ?thesis
    by metis
qed


theorem sqlite_flush_sends_row_id_witness:
  "table_ok empty_table
   \<and> (\<exists>n. snd (snd (flush_data
          \<lparr>azure_imported = True, mqtt_imported = True, boto_imported = True\<rparr>
          (Some (SQLite_storage (snd (sqlite_add_messages
             \<lparr>azure_imported = True, mqtt_imported = True, boto_imported = True\<rparr>
             (Db (Some empty_table)) [fmupd ''t'' (JInt 21) fmempty]))))
          (Some \<lparr>connected = True, send_outcome = (\<lambda>k. True), sent = [],
                 connect_outcome = (\<lambda>k. True), connect_calls = 0,
                 random_draw = (\<lambda>k. 0), slept = []\<rparr>)))
       = Some \<lparr>connected = True, send_outcome = (\<lambda>k. True),
               sent = take n [fmupd ''_db_id'' (JInt 1) (fmupd ''t'' (JInt 21) fmempty)],
               connect_outcome = (\<lambda>k. True), connect_calls = 0,
               random_draw = (\<lambda>k. 0), slept = []\<rparr>)"
proof -
  let ?im = "\<lparr>azure_imported = True, mqtt_imported = True, boto_imported = True\<rparr>"
  let ?c = "\<lparr>connected = True, send_outcome = (\<lambda>k. True), sent = [],
              connect_outcome = (\<lambda>k. True), connect_calls = 0,
              random_draw = (\<lambda>k. 0::real), slept = []\<rparr>"
  let ?A = "sqlite_add_messages ?im (Db (Some empty_table)) [fmupd ''t'' (JInt 21) fmempty]"
  let ?X = "flush_data ?im (Some (SQLite_storage (snd ?A))) (Some ?c)"
  have ok: "table_ok empty_table" by (simp add: table_ok_def empty_table_def)
  have conn: "is_connected ?c" by (simp add: is_connected_def)
  have add: "?A = (fst ?A, snd ?A)" by simp
  have run: "?X = (fst ?X, fst (snd ?X), snd (snd ?X))" by simp
  from sqlite_flush_sends_row_id [OF ok conn add run] ok show ?thesis
    by (simp add: empty_table_def)
qed

text \<open>
  The claim as stated fails: after the constructor and one enqueue of \<open>{"t": 21}\<close>, a
  flush hands \<open>{"t": 21, "_db_id": 1}\<close> to the endpoint, which is not the enqueued
  message.
\<close>

theorem sqlite_flush_exposes_db_id:
  "snd (snd (flush_data
          \<lparr>azure_imported = True, mqtt_imported = True, boto_imported = True\<rparr>
          (Some (SQLite_storage (snd (sqlite_add_messages
             \<lparr>azure_imported = True, mqtt_imported = True, boto_imported = True\<rparr>
             (snd (init_db \<lparr>azure_imported = True, mqtt_imported = True, boto_imported = True\<rparr>
                     No_file))
             [fmupd ''t'' (JInt 21) fmempty]))))
          (Some \<lparr>connected = True, send_outcome = (\<lambda>k. True), sent = [],
                 connect_outcome = (\<lambda>k. True), connect_calls = 0,
                 random_draw = (\<lambda>k. 0), slept = []\<rparr>)))
     = Some \<lparr>connected = True, send_outcome = (\<lambda>k. True),
             sent = [fmupd ''_db_id'' (JInt 1) (fmupd ''t'' (JInt 21) fmempty)],
             connect_outcome = (\<lambda>k. True), connect_calls = 0,
             random_draw = (\<lambda>k. 0), slept = []\<rparr>
   \<and> fmupd ''_db_id'' (JInt 1) (fmupd ''t'' (JInt 21) fmempty) \<noteq> fmupd ''t'' (JInt 21) fmempty"
proof -
  let ?im = "\<lparr>azure_imported = True, mqtt_imported = True, boto_imported = True\<rparr>"
  let ?m = "fmupd ''t'' (JInt 21) fmempty"
  let ?c = "\<lparr>connected = True, send_outcome = (\<lambda>k. True), sent = [],
              connect_outcome = (\<lambda>k. True), connect_calls = 0,
              random_draw = (\<lambda>k. 0::real), slept = []\<rparr>"
  let ?t = "\<lparr>rows = [(1, Encoded (JObject ?m))], last_id = 1\<rparr>"
  let ?st = "SQLite_storage (Db (Some ?t))"
  let ?X = "flush_data ?im (Some ?st) (Some ?c)"
  have db: "snd (sqlite_add_messages ?im (snd (init_db ?im No_file)) [?m]) = Db (Some ?t)"
    by (simp add: init_db_def sqlite_add_messages_def empty_table_def insert_row_def)
  have wf: "well_formed ?st" by (simp add: table_ok_def)
  have conn: "is_connected ?c" by (simp add: is_connected_def)
  have cl: "clean ?st" by simp
  have cont: "contents ?st = [fmupd ''_db_id'' (JInt 1) ?m]" by simp
  have run: "?X = (fst ?X, fst (snd ?X), snd (snd ?X))" by simp
  from flush_data_outcome [OF wf conn run] cl obtain n where
    "snd (snd ?X) = Some (?c\<lparr>sent := sent ?c @ take n (contents ?st)\<rparr>)"
    "n = min (Suc (accepted (send_outcome ?c) (length (sent ?c)) (contents ?st)))
           (length (contents ?st))"
    by blast
  then have sent: "snd (snd ?X) = Some (?c\<lparr>sent := [fmupd ''_db_id'' (JInt 1) ?m]\<rparr>)"
    by (simp add: cont)
  have ne: "fmupd ''_db_id'' (JInt 1) ?m \<noteq> ?m"
  proof
    assume "fmupd ''_db_id'' (JInt 1) ?m = ?m"
    then have "fmlookup (fmupd ''_db_id'' (JInt 1) ?m) ''_db_id'' = fmlookup ?m ''_db_id''"
      by simp
    then show False by simp
  qed
  from sent ne show ?thesis unfolding db by simp
qed

section \<open>Reconnect attempts and sleeps\<close>

lemma failed_attempts_le: "failed_attempts f k n \<le> n"
  by (induction n arbitrary: k) simp_all

lemma failed_attempts_all:
  "(\<forall>i<n. \<not> f (k + i)) \<Longrightarrow> failed_attempts f k n = n"
proof (induction n arbitrary: k)
  case 0
  show ?case by simp
next
  case (Suc n)
  from Suc.prems have "\<not> f k" by (metis add.right_neutral zero_less_Suc)
  moreover from Suc.prems have "\<forall>i<n. \<not> f (Suc k + i)" by (metis Suc_less_eq add_Suc_shift)
  ultimately show ?case using Suc.IH [of "Suc k"] by simp
qed

lemma reconnect_loop_outcome:
  "\<not> connected c \<Longrightarrow>
   reconnect_loop [a ..< a + n] c =
     (failed_attempts (connect_outcome c) (connect_calls c) n < n,
      c\<lparr>connected := failed_attempts (connect_outcome c) (connect_calls c) n < n,
        connect_calls := connect_calls c
           + (if failed_attempts (connect_outcome c) (connect_calls c) n < n
              then Suc (failed_attempts (connect_outcome c) (connect_calls c) n) else n),
        slept := slept c @ map (\<lambda>i. backoff_sleep c (a + i) (length (slept c) + i))
                   [0 ..< failed_attempts (connect_outcome c) (connect_calls c) n]\<rparr>)"
proof (induction n arbitrary: a c)
  case 0
  then show ?case by simp
next
  case (Suc n)
  have up: "[a ..< a + Suc n] = a # [Suc a ..< Suc a + n]"
    by (simp add: upt_conv_Cons)
  show ?case
  proof (cases "connect_outcome c (connect_calls c)")
    case True
    with Suc.prems show ?thesis
      unfolding up by (simp add: client_connect_def)
  next
    case False
    define c2 where "c2 = sleep (backoff_sleep c a (length (slept c)))
                            (c\<lparr>connected := False, connect_calls := Suc (connect_calls c)\<rparr>)"
    have nc: "\<not> connected c2" by (simp add: c2_def sleep_def)
    have step: "reconnect_loop [a ..< a + Suc n] c = reconnect_loop [Suc a ..< Suc a + n] c2"
      unfolding up using False Suc.prems
      by (simp add: client_connect_def c2_def backoff_sleep_def)
    have f2: "connect_outcome c2 = connect_outcome c" "connect_calls c2 = Suc (connect_calls c)"
      "slept c2 = slept c @ [backoff_sleep c a (length (slept c))]"
      "\<And>x y. backoff_sleep c2 x y = backoff_sleep c x y"
      by (simp_all add: c2_def sleep_def backoff_sleep_def)
    have m: "map (\<lambda>i. backoff_sleep c (a + i) (length (slept c) + i)) [0 ..< Suc j]
             = backoff_sleep c a (length (slept c))
               # map (\<lambda>i. backoff_sleep c (Suc a + i) (Suc (length (slept c)) + i)) [0 ..< j]" for j
    proof -
      have "[0 ..< Suc j] = 0 # map Suc [0 ..< j]"
        by (simp add: upt_conv_Cons map_Suc_upt del: upt_Suc)
      then show ?thesis by (simp add: o_def del: upt_Suc)
    qed
    show ?thesis
      unfolding step Suc.IH [OF nc] f2 using False
      by (simp add: m c2_def sleep_def del: upt_Suc)
  qed
qed


lemma backoff_sleep_bounds:
  assumes "0 \<le> random_draw c d" and "random_draw c d < 1"
  shows "backoff_sleep c (Suc i) d = 2 * 2 ^ i + 0.3 * (2 * 2 ^ i) * random_draw c d
       \<and> 2 * 2 ^ i \<le> backoff_sleep c (Suc i) d
       \<and> backoff_sleep c (Suc i) d < 1.3 * (2 * 2 ^ i)"
proof -
  have pos: "(0::real) < 2 * 2 ^ i" by simp
  have e: "backoff_sleep c (Suc i) d = 2 * 2 ^ i + 0.3 * (2 * 2 ^ i) * random_draw c d"
    by (simp add: backoff_sleep_def backoff_delay_def base_delay_def uniform_def)
  have "0 \<le> 0.3 * (2 * 2 ^ i) * random_draw c d"
    using assms(1) pos by simp
  moreover have "0.3 * (2 * 2 ^ i) * random_draw c d < 0.3 * (2 * 2 ^ i)"
    using assms(2) pos by simp
  ultimately show ?thesis unfolding e by (simp add: algebra_simps)
qed

text \<open>
  Claim C4, as amended. For \<open>max_retries >= 1\<close> on a client that is not connected,
  \<open>reconnect\<close> attempts \<open>connect\<close> until the first success or until \<open>max_retries\<close>
  attempts have failed; it returns whether an attempt succeeded; it sleeps once after every
  failed attempt, the last one included, and not after a successful one; the sleep after
  attempt \<open>i + 1\<close> is \<open>2 * 2^i\<close> plus a jitter \<open>0.3 * (2 * 2^i) * u\<close> with \<open>u\<close> the
  draw from \<open>[0, 1)\<close>, so it lies in \<open>[2 * 2^i, 1.3 * 2 * 2^i)\<close>. When every attempt
  fails there are exactly \<open>max_retries\<close> attempts and \<open>max_retries\<close> sleeps.
\<close>

theorem reconnect_backoff:
  assumes "\<not> connected c" and "1 \<le> max_retries"
    and "\<forall>k. 0 \<le> random_draw c k \<and> random_draw c k < 1"
    and "reconnect c max_retries = (ok, c')"
    and "n = nat max_retries"
    and "j = failed_attempts (connect_outcome c) (connect_calls c) n"
  shows "ok = (j < n) \<and> connected c' = ok
       \<and> connect_calls c' = connect_calls c + (if ok then Suc j else n)
       \<and> length (slept c') = length (slept c) + j
       \<and> take (length (slept c)) (slept c') = slept c
       \<and> (\<forall>i<j. slept c' ! (length (slept c) + i)
                   = 2 * 2 ^ i + 0.3 * (2 * 2 ^ i) * random_draw c (length (slept c) + i)
                \<and> 2 * 2 ^ i \<le> slept c' ! (length (slept c) + i)
                \<and> slept c' ! (length (slept c) + i) < 1.3 * (2 * 2 ^ i))
       \<and> ((\<forall>k<n. \<not> connect_outcome c (connect_calls c + k)) \<longrightarrow>
            \<not> ok \<and> connect_calls c' = connect_calls c + n
            \<and> length (slept c') = length (slept c) + n)"
proof -
  from assms(2,5) have r: "[1 ..< nat (max_retries + 1)] = [1 ..< 1 + n]"
    by (simp add: nat_add_distrib)
  have "reconnect c max_retries = reconnect_loop [1 ..< 1 + n] c"
    by (simp only: reconnect_def r assms(1) if_False)
  with assms(4) have "reconnect_loop [1 ..< 1 + n] c = (ok, c')"
    by (simp only:)
  with reconnect_loop_outcome [OF assms(1), of 1 n, folded assms(6)]
  have "(ok, c') = (j < n, c\<lparr>connected := j < n,
        connect_calls := connect_calls c + (if j < n then Suc j else n),
        slept := slept c @ map (\<lambda>i. backoff_sleep c (1 + i) (length (slept c) + i)) [0 ..< j]\<rparr>)"
    by (simp only:)
  then have ok: "ok = (j < n)"
    and c': "c' = c\<lparr>connected := j < n,
        connect_calls := connect_calls c + (if j < n then Suc j else n),
        slept := slept c @ map (\<lambda>i. backoff_sleep c (Suc i) (length (slept c) + i)) [0 ..< j]\<rparr>"
    by simp_all
  have nth: "slept c' ! (length (slept c) + i) = backoff_sleep c (Suc i) (length (slept c) + i)"
    if "i < j" for i
    using that by (simp add: c' nth_append)
  have bounds: "slept c' ! (length (slept c) + i)
                   = 2 * 2 ^ i + 0.3 * (2 * 2 ^ i) * random_draw c (length (slept c) + i)
                \<and> 2 * 2 ^ i \<le> slept c' ! (length (slept c) + i)
                \<and> slept c' ! (length (slept c) + i) < 1.3 * (2 * 2 ^ i)"
    if "i < j" for i
    unfolding nth [OF that]
    using backoff_sleep_bounds [of c "length (slept c) + i" i] assms(3) by blast
  have allfail: "\<not> ok \<and> connect_calls c' = connect_calls c + n
            \<and> length (slept c') = length (slept c) + n"
    if "\<forall>k<n. \<not> connect_outcome c (connect_calls c + k)"
    using failed_attempts_all [OF that] assms(6) ok by (simp add: c')
  have f1: "connected c' = ok" by (simp add: c' ok)
  have f2: "connect_calls c' = connect_calls c + (if ok then Suc j else n)" by (simp add: c' ok)
  have f3: "length (slept c') = length (slept c) + j" by (simp add: c')
  have f4: "take (length (slept c)) (slept c') = slept c" by (simp add: c')
  from ok f1 f2 f3 f4 bounds allfail show ?thesis by blast
qed

theorem reconnect_backoff_witness:
  "reconnect \<lparr>connected = False, send_outcome = (\<lambda>k. True), sent = [],
              connect_outcome = (\<lambda>k. k = 1), connect_calls = 0,
              random_draw = (\<lambda>k. 1 / 2), slept = []\<rparr> 3
   = (True, \<lparr>connected = True, send_outcome = (\<lambda>k. True), sent = [],
              connect_outcome = (\<lambda>k. k = 1), connect_calls = 2,
              random_draw = (\<lambda>k. 1 / 2), slept = [23 / 10]\<rparr>)"
proof -
  let ?c = "\<lparr>connected = False, send_outcome = (\<lambda>k. True), sent = [],
              connect_outcome = (\<lambda>k. k = 1), connect_calls = 0,
              random_draw = (\<lambda>k. (1::real) / 2), slept = []\<rparr>"
  let ?R = "reconnect ?c 3"
  have a1: "\<not> connected ?c" by simp
  have a2: "(1::int) \<le> 3" by simp
  have a3: "\<forall>k. 0 \<le> random_draw ?c k \<and> random_draw ?c k < 1" by simp
  have a4: "?R = (fst ?R, snd ?R)" by simp
  have a5: "(3::nat) = nat 3" by simp
  have a6: "(1::nat) = failed_attempts (connect_outcome ?c) (connect_calls ?c) 3"
    by (simp add: eval_nat_numeral)
  from reconnect_backoff [OF a1 a2 a3 a4 a5 a6]
  have "fst ?R" "connected (snd ?R)" "connect_calls (snd ?R) = 2"
    "length (slept (snd ?R)) = 1" "slept (snd ?R) ! 0 = 23 / 10"
    by simp_all
  moreover have "snd ?R = ?c\<lparr>connected := connected (snd ?R),
      connect_calls := connect_calls (snd ?R), slept := slept (snd ?R)\<rparr>"
    by (simp add: reconnect_def eval_nat_numeral upt_conv_Cons client_connect_def sleep_def)
  ultimately show ?thesis
    by (cases "slept (snd ?R)") (auto simp: prod_eq_iff)
qed

text \<open>
  The claim as stated fails: with three retries, every attempt failing and no jitter, the
  sleeps are \<open>[2, 4, 8]\<close>; a sleep of eight seconds follows the last attempt.
\<close>

theorem reconnect_sleeps_after_last_attempt:
  "reconnect \<lparr>connected = False, send_outcome = (\<lambda>k. True), sent = [],
              connect_outcome = (\<lambda>k. False), connect_calls = 0,
              random_draw = (\<lambda>k. 0), slept = []\<rparr> 3
   = (False, \<lparr>connected = False, send_outcome = (\<lambda>k. True), sent = [],
              connect_outcome = (\<lambda>k. False), connect_calls = 3,
              random_draw = (\<lambda>k. 0), slept = [2, 4, 8]\<rparr>)"
  by (simp add: reconnect_def eval_nat_numeral upt_conv_Cons client_connect_def sleep_def
      backoff_delay_def base_delay_def uniform_def)

section \<open>Buffering by send_telemetry\<close>

lemma load_entire_list_usable: "fs \<noteq> Directory \<Longrightarrow> \<exists>current. load_entire_list im fs = Inr current"
proof (cases fs)
  case (File d)
  then show ?thesis
    by (cases d) (auto simp: load_entire_list_def)
qed (simp_all add: load_entire_list_def)

lemma add_message_usable:
  assumes "usable st"
  shows "\<exists>st'. add_message im (Some st) data = (Inr (), Some st') \<and> holds st' data \<and> usable st'"
proof (cases st)
  case (JSON_storage fs)
  with assms have nd: "fs \<noteq> Directory" by simp
  from load_entire_list_usable [OF nd] obtain current where
    l: "load_entire_list im fs = Inr current" by blast
  have e: "File (Doc_array (map Good (current @ [data]))) = holding (current @ [data])"
    by (simp add: holding_def)
  have "json_add_messages im fs [data] = (Inr (), holding (current @ [data]))"
    unfolding e [symmetric]
    using save_entire_list_written [OF _ nd, of "current @ [data]" im]
    by (simp add: json_add_messages_def l)
  with JSON_storage show ?thesis
    by (simp add: add_message_def stored_holding holding_not_Directory)
next
  case (SQLite_storage db)
  with assms obtain t where db: "db = Db (Some t)"
    by (cases st rule: usable.cases) auto
  have "json_dumps data \<in> snd ` set (rows (insert_all t [data]))"
    by (simp add: insert_row_def)
  with SQLite_storage db show ?thesis
    by (simp add: add_message_def sqlite_add_messages_table del: insert_all.simps json_dumps.simps)
qed

text \<open>
  Claim C5. With a configured storage that can take a write, for every message and every
  state of the client: when the client is not connected, \<open>send_telemetry\<close> leaves the
  client untouched (no send is made), the message is stored afterwards and the result is
  \<open>False\<close>; when the client is connected and its send fails, the send was made once,
  the message is stored afterwards and the result is \<open>False\<close>; and in every case the
  call returns a value, it does not raise.
\<close>

theorem send_telemetry_buffers:
  assumes "mgr_storage m = Some st" and "usable st"
    and "send_telemetry im m data = (r, m')"
  shows "(\<not> is_connected (mgr_client m) \<longrightarrow>
            r = Inr False \<and> mgr_client m' = mgr_client m
            \<and> (\<exists>st'. mgr_storage m' = Some st' \<and> holds st' data))
       \<and> (is_connected (mgr_client m)
            \<and> \<not> send_outcome (mgr_client m) (length (sent (mgr_client m))) \<longrightarrow>
            r = Inr False \<and> sent (mgr_client m') = sent (mgr_client m) @ [data]
            \<and> (\<exists>st'. mgr_storage m' = Some st' \<and> holds st' data))
       \<and> (\<exists>b. r = Inr b)"
proof -
  from add_message_usable [OF assms(2), of im data] obtain st' where
    a: "add_message im (Some st) data = (Inr (), Some st')" and h: "holds st' data" by blast
  show ?thesis
  proof (cases "is_connected (mgr_client m)")
    case False
    with assms(1,3) a h show ?thesis
      by (auto simp: send_telemetry_def)
  next
    case True
    show ?thesis
    proof (cases "send_outcome (mgr_client m) (length (sent (mgr_client m)))")
      case False
      with True assms(1,3) a h show ?thesis
        by (auto simp: send_telemetry_def client_send_telemetry_def)
    next
      case ok: True
      with True assms(1,3) show ?thesis
        by (auto simp: send_telemetry_def client_send_telemetry_def)
    qed
  qed
qed


theorem send_telemetry_buffers_witness:
  "usable (JSON_storage Absent)
   \<and> fst (send_telemetry \<lparr>azure_imported = False, mqtt_imported = False, boto_imported = False\<rparr>
        \<lparr>mgr_client = \<lparr>connected = False, send_outcome = (\<lambda>k. True), sent = [],
                        connect_outcome = (\<lambda>k. False), connect_calls = 0,
                        random_draw = (\<lambda>k. 0), slept = []\<rparr>,
          mgr_storage = Some (JSON_storage Absent)\<rparr>
        (fmupd ''t'' (JInt 21) fmempty)) = Inr False
   \<and> (\<exists>st'. mgr_storage (snd (send_telemetry
          \<lparr>azure_imported = False, mqtt_imported = False, boto_imported = False\<rparr>
          \<lparr>mgr_client = \<lparr>connected = False, send_outcome = (\<lambda>k. True), sent = [],
                          connect_outcome = (\<lambda>k. False), connect_calls = 0,
                          random_draw = (\<lambda>k. 0), slept = []\<rparr>,
            mgr_storage = Some (JSON_storage Absent)\<rparr>
          (fmupd ''t'' (JInt 21) fmempty))) = Some st'
        \<and> holds st' (fmupd ''t'' (JInt 21) fmempty))"
proof -
  let ?im = "\<lparr>azure_imported = False, mqtt_imported = False, boto_imported = False\<rparr>"
  let ?c = "\<lparr>connected = False, send_outcome = (\<lambda>k. True), sent = [],
              connect_outcome = (\<lambda>k. False), connect_calls = 0,
              random_draw = (\<lambda>k. 0::real), slept = []\<rparr>"
  let ?m = "\<lparr>mgr_client = ?c, mgr_storage = Some (JSON_storage Absent)\<rparr>"
  let ?d = "fmupd ''t'' (JInt 21) fmempty"
  let ?X = "send_telemetry ?im ?m ?d"
  have s: "mgr_storage ?m = Some (JSON_storage Absent)" by simp
  have u: "usable (JSON_storage Absent)" by simp
  have run: "?X = (fst ?X, snd ?X)" by simp
  have nc: "\<not> is_connected (mgr_client ?m)" by (simp add: is_connected_def)
  from send_telemetry_buffers [OF s u run] nc u show ?thesis by blast
qed

section \<open>Decode failures during a drain\<close>

lemma parse_rows_map_filter: "parse_rows rs = List.map_filter row_message rs"
proof (induction rs)
  case Nil
  show ?case by simp
next
  case (Cons r rs)
  obtain i raw where r: "r = (i, raw)" by (cases r)
  show ?case
  proof (cases "parses (i, raw)")
    case True
    then show ?thesis using Cons r
      by (cases "(i, raw)" rule: parses.cases) simp_all
  next
    case False
    then show ?thesis using Cons r
      by (cases "(i, raw)" rule: row_message.cases) simp_all
  qed
qed

text \<open>
  Claim C6, as amended. On the embedded-SQL backend \<open>load_messages\<close> never fails on a
  row: of the selected rows it returns, in id order, the message of every row whose text
  decodes to a JSON object, and skips exactly the others. On the file-based backend a
  file with a malformed record is read as empty, \<open>load_messages\<close> returns the empty list;
  a file whose records all decode is returned whole.
\<close>

theorem load_messages_decode_failures:
  "fst (sqlite_load_messages im (Db (Some t)) limit)
     = Inr (List.map_filter row_message (select_rows t limit))
   \<and> (\<not> list_all is_Good es \<longrightarrow>
        fst (json_load_messages im (File (Doc_array es)) limit) = Inr [])
   \<and> (list_all is_Good es \<longrightarrow>
        fst (json_load_messages im (File (Doc_array es)) 0) = Inr (decoded es))"
  by (simp add: sqlite_load_messages_def parse_rows_map_filter json_load_messages_def
      load_entire_list_def)

theorem load_messages_decode_failures_witness:
  "fst (sqlite_load_messages \<lparr>azure_imported = False, mqtt_imported = False, boto_imported = False\<rparr>
     (Db (Some \<lparr>rows = [(1, Encoded (JObject (fmupd ''t'' (JInt 1) fmempty))), (2, Garbled),
                         (3, Encoded (JObject (fmupd ''t'' (JInt 3) fmempty)))],
                last_id = 3\<rparr>)) 0)
     = Inr [fmupd ''_db_id'' (JInt 1) (fmupd ''t'' (JInt 1) fmempty),
            fmupd ''_db_id'' (JInt 3) (fmupd ''t'' (JInt 3) fmempty)]
   \<and> fst (json_load_messages \<lparr>azure_imported = False, mqtt_imported = False, boto_imported = False\<rparr>
        (File (Doc_array [Good (1::nat), Good 2])) 0) = Inr [1, 2]
   \<and> fst (json_load_messages \<lparr>azure_imported = False, mqtt_imported = False, boto_imported = False\<rparr>
        (File (Doc_array [Good (1::nat), Bad])) 0) = Inr []"
proof -
  let ?im = "\<lparr>azure_imported = False, mqtt_imported = False, boto_imported = False\<rparr>"
  let ?t = "\<lparr>rows = [(1, Encoded (JObject (fmupd ''t'' (JInt 1) fmempty))), (2, Garbled),
                      (3, Encoded (JObject (fmupd ''t'' (JInt 3) fmempty)))],
             last_id = 3\<rparr>"
  from load_messages_decode_failures [of ?im ?t 0 "[Good (1::nat), Good 2]"]
       load_messages_decode_failures [of ?im ?t 0 "[Good (1::nat), Bad]"]
  show ?thesis
    by (simp add: select_rows_def)
qed

text \<open>
  The claim as stated fails on the file-based backend: a file whose array holds the
  records \<open>1\<close>, a malformed one and \<open>2\<close> is drained as the empty list, so the two
  decodable records are not returned.
\<close>

theorem json_drain_loses_decodable_records:
  "fst (json_load_messages \<lparr>azure_imported = True, mqtt_imported = True, boto_imported = True\<rparr>
     (File (Doc_array [Good (1::nat), Bad, Good 2])) 0) = Inr []
   \<and> decoded [Good (1::nat), Bad, Good 2] = [1, 2]"
  by (simp add: json_load_messages_def load_entire_list_def)

section \<open>When the on-disk state is created\<close>

text \<open>
  Claim C7, as amended. The file-based backend creates its file lazily: the constructor
  leaves the path absent and the first non-empty \<open>add_messages\<close> creates the file. The
  embedded-SQL backend creates its database file and table in the constructor. On both
  backends \<open>add_messages\<close> with an empty input returns normally and leaves the on-disk
  state as it was.
\<close>

theorem storage_creation:
  "json_init (Absent :: 'm path_state) = Absent
   \<and> json_add_messages im (fs :: 'm path_state) [] = (Inr (), fs)
   \<and> (msgs \<noteq> [] \<longrightarrow> path_exists (snd (json_add_messages im (Absent :: 'm path_state) msgs)))
   \<and> sqlite_init im No_file = Db (Some empty_table)
   \<and> sqlite_add_messages im db [] = (Inr (), db)"
proof -
  have "path_exists (snd (json_add_messages im (Absent :: 'm path_state) msgs))" if "msgs \<noteq> []"
    using that json_add_messages_holding [of im "[]" msgs]
    by (simp add: holding_def)
  then show ?thesis
    by (simp add: json_init_def json_add_messages_def sqlite_init_def init_db_def
        sqlite_add_messages_def)
qed

theorem storage_creation_witness:
  "path_exists (snd (json_add_messages
      \<lparr>azure_imported = False, mqtt_imported = False, boto_imported = False\<rparr>
      (Absent :: nat path_state) [7]))"
  using storage_creation [of "\<lparr>azure_imported = False, mqtt_imported = False, boto_imported = False\<rparr>"
      "Absent :: nat path_state" "[7::nat]" No_file]
  by simp

text \<open>
  The claim as stated fails on the embedded-SQL backend: the constructor alone, before any
  enqueue, leaves a database file with the table.
\<close>

theorem sqlite_constructor_creates_database:
  "db_exists (sqlite_init \<lparr>azure_imported = True, mqtt_imported = True, boto_imported = True\<rparr> No_file)
   \<and> row_count (sqlite_init \<lparr>azure_imported = True, mqtt_imported = True, boto_imported = True\<rparr>
        No_file) = Some 0"
  by (simp add: sqlite_init_def init_db_def empty_table_def)

end
